theory Spec2Isabelle
  imports Main
begin

unbundle bit_operations_syntax

section \<open>Python values and errors\<close>

text \<open>
  The scripts compute with Python's unbounded integers, modelled as \<open>int\<close>. Python's
  \<open>%\<close> with a nonzero right operand is floor-modulo, which is \<open>mod\<close> on \<open>int\<close>; with a zero
  right operand it raises \<open>ZeroDivisionError\<close>. Every raise is an \<open>Inl\<close> of the result.
\<close>

datatype py_error = ZeroDivisionError | ValueError | IndexError | OverflowError

definition bind_err :: "py_error + 'a \<Rightarrow> ('a \<Rightarrow> py_error + 'b) \<Rightarrow> py_error + 'b" where
  "bind_err m f = (case m of Inl e \<Rightarrow> Inl e | Inr v \<Rightarrow> f v)"

definition py_mod :: "int \<Rightarrow> int \<Rightarrow> py_error + int" where
  "py_mod a b = (if b = 0 then Inl ZeroDivisionError else Inr (a mod b))"

section \<open>Modular exponentiation\<close>

text \<open>
  \<open>power(x, e, p)\<close> is the same text in \<open>Exercise04/ex04_4-2-a.py\<close>,
  \<open>Exercise04/ex04_4-2-b.py\<close>, \<open>Exercise09/Ordiales_Inaky_09.py\<close>, \<open>Exercise10/sol10.py\<close>
  and \<open>Exercise10/Ordiales_Inaky_10-1.py\<close> (up to the names of the variables):
  \<^verbatim>\<open>
  def power(x, e, p):
      result = 1
      x = x % p
      if (x == 0):
          return 0
      while (e > 0):
          if ((e & 1) == 0):
              x = (x * x) % p
              e = e >> 1
          else:
              result = (result * x) % p
              e = e - 1
      return result
  \<close>
  The loop is \<open>power_loop\<close> on the triple of its variables; the modulus is nonzero when the
  loop is reached, since \<open>x % p\<close> has already been computed.
\<close>

function power_loop :: "int \<Rightarrow> int \<Rightarrow> int \<Rightarrow> int \<Rightarrow> int" where
  "power_loop result x e p =
     (if e > 0 then
        (if e AND 1 = 0 then power_loop result ((x * x) mod p) (drop_bit 1 e) p
         else power_loop ((result * x) mod p) x (e - 1) p)
      else result)"
  by pat_completeness auto
termination
  by (relation "measure (\<lambda>(result, x, e, p). nat e)") (auto simp: drop_bit_eq_div)

declare power_loop.simps [simp del]

definition power :: "int \<Rightarrow> int \<Rightarrow> int \<Rightarrow> py_error + int" where
  "power x e p =
     bind_err (py_mod x p) (\<lambda>x'.
       if x' = 0 then Inr 0 else Inr (power_loop 1 x' e p))"

section \<open>Loops that can raise, and the random source\<close>

text \<open>
  A \<open>for\<close> loop whose body can raise stops at the first error. \<open>fold_err\<close> runs the body
  over the list of the loop's indices, threading the loop's variables.
\<close>

fun fold_err :: "('a \<Rightarrow> 's \<Rightarrow> py_error + 's) \<Rightarrow> 'a list \<Rightarrow> 's \<Rightarrow> py_error + 's" where
  "fold_err f [] s = Inr s"
| "fold_err f (x # xs) s = bind_err (f x s) (fold_err f xs)"

text \<open>
  \<open>random.randint(a, b)\<close> returns some integer of \<open>[a, b]\<close> and raises \<open>ValueError\<close> on an
  empty range. The value drawn is an argument of the model: each function that draws takes
  a stream \<open>rnd\<close> of draws, \<open>rnd k\<close> being its \<open>k\<close>-th draw.
\<close>

definition randint :: "int \<Rightarrow> int \<Rightarrow> int \<Rightarrow> py_error + int" where
  "randint a b draw = (if a \<le> b then Inr draw else Inl ValueError)"

text \<open>
  A subscript \<open>xs[i]\<close>: the position \<open>i\<close> names in a list of \<open>len\<close> elements, counted
  from the end when \<open>i\<close> is negative; no position, and an \<open>IndexError\<close>, outside
  \<open>[-len, len)\<close>.
\<close>

definition py_index :: "nat \<Rightarrow> int \<Rightarrow> nat option" where
  "py_index len i =
     (if 0 \<le> i \<and> i < int len then Some (nat i)
      else if i < 0 \<and> - int len \<le> i then Some (nat (int len + i))
      else None)"

definition py_get :: "'a list \<Rightarrow> int \<Rightarrow> py_error + 'a" where
  "py_get xs i =
     (case py_index (length xs) i of None \<Rightarrow> Inl IndexError | Some k \<Rightarrow> Inr (xs ! k))"

section \<open>Shamir secret sharing (Exercise09/Ordiales\_Inaky\_09.py)\<close>

text \<open>
  \<^verbatim>\<open>
  def generateCoefficients(x, f, q):
      coeffs = []
      coeffs.append(x)
      for i in range(0,f):
          coeffs.append(random.randint(0, q))
      return coeffs
  \<close>
\<close>

definition generateCoefficients :: "int \<Rightarrow> int \<Rightarrow> int \<Rightarrow> (nat \<Rightarrow> int) \<Rightarrow> py_error + int list" where
  "generateCoefficients x f q rnd =
     fold_err (\<lambda>i coeffs. bind_err (randint 0 q (rnd (nat i))) (\<lambda>c. Inr (coeffs @ [c])))
       [0..f - 1] [x]"

text \<open>
  \<^verbatim>\<open>
  def polynomial(val, coefficients, f, q):
      polVal = 0
      for i in range(0, f+1):
          polVal += (coefficients[i]*power(val, i, q))
          polVal %= q
      return polVal
  \<close>
\<close>

definition polynomial :: "int \<Rightarrow> int list \<Rightarrow> int \<Rightarrow> int \<Rightarrow> py_error + int" where
  "polynomial val coefficients f q =
     fold_err (\<lambda>i polVal.
         bind_err (py_get coefficients i) (\<lambda>c.
         bind_err (power val i q) (\<lambda>pw.
         py_mod (polVal + c * pw) q)))
       [0..f] 0"

text \<open>
  \<^verbatim>\<open>
  def share(x, f, n, q):
      shares = []
      coeffs = []
      coeffs = generateCoefficients(x, f, q)
      for i in range(1, n+1):
          polVal = polynomial(i, coeffs, f, q)
          shares.append((i, polVal))
      return shares
  \<close>
\<close>

definition share :: "int \<Rightarrow> int \<Rightarrow> int \<Rightarrow> int \<Rightarrow> (nat \<Rightarrow> int) \<Rightarrow> py_error + (int \<times> int) list" where
  "share x f n q rnd =
     bind_err (generateCoefficients x f q rnd) (\<lambda>coeffs.
       fold_err (\<lambda>i shares.
           bind_err (polynomial i coeffs f q) (\<lambda>polVal. Inr (shares @ [(i, polVal)])))
         [1..n] [])"

text \<open>
  \<^verbatim>\<open>
  def modInverse(x, q):
      if x < 0 :
          x = q + x
      inverted = power(x, q-2, q)
      return inverted
  \<close>
\<close>

definition modInverse :: "int \<Rightarrow> int \<Rightarrow> py_error + int" where
  "modInverse x q = (let x' = (if x < 0 then q + x else x) in power x' (q - 2) q)"

text \<open>
  \<^verbatim>\<open>
  def reconstruct(shares, q):
      numerator   = 1
      denominator = 1
      secret      = 0
      l = len(shares)
      for i in range(0, l):
          numerator   = 1
          denominator = 1
          for j in range (0, l):
              if i != j:
                  numerator   *= shares[j][0]
                  numerator   %= q
                  denominator *= (shares[j][0]-shares[i][0])
                  denominator %= q
          numerator *= shares[i][1]
          secret += modInverse(denominator, q) * numerator
          secret %= q
      return secret
  \<close>
  The indices \<open>i\<close>, \<open>j\<close> range over \<open>[0, l)\<close>, so every \<open>shares[j]\<close> is in range.
  \<open>lagrange_terms\<close> is the inner loop: the pair (numerator, denominator) for one \<open>i\<close>,
  reduced with the modulus \<open>m\<close> it is given.
\<close>

definition lagrange_terms :: "(int \<times> int) list \<Rightarrow> int \<Rightarrow> nat \<Rightarrow> py_error + int \<times> int" where
  "lagrange_terms shares m i =
     fold_err (\<lambda>j (numerator, denominator).
         if i \<noteq> j then
           bind_err (py_mod (numerator * fst (shares ! j)) m) (\<lambda>numerator'.
           bind_err (py_mod (denominator * (fst (shares ! j) - fst (shares ! i))) m) (\<lambda>denominator'.
           Inr (numerator', denominator')))
         else Inr (numerator, denominator))
       [0..<length shares] (1, 1)"

definition reconstruct :: "(int \<times> int) list \<Rightarrow> int \<Rightarrow> py_error + int" where
  "reconstruct shares q =
     fold_err (\<lambda>i secret.
         bind_err (lagrange_terms shares q i) (\<lambda>(numerator, denominator).
         let numerator' = numerator * snd (shares ! i) in
         bind_err (modInverse denominator q) (\<lambda>inverted.
         py_mod (secret + inverted * numerator') q)))
       [0..<length shares] 0"

section \<open>Threshold ElGamal, reference solution (Exercise10/sol10.py)\<close>

text \<open>
  \<open>power\<close> and \<open>modInverse\<close> of this file are the same text as above.
  \<^verbatim>\<open>
  def generateCoefficients(x, f, q):
      coefficients = []
      for i in range(1, f + 1):
          coefficients.append(random.randint(0, q-1))
      coefficients.append(x)
      return coefficients
  \<close>
\<close>

definition sol10_generateCoefficients ::
  "int \<Rightarrow> int \<Rightarrow> int \<Rightarrow> (nat \<Rightarrow> int) \<Rightarrow> py_error + int list" where
  "sol10_generateCoefficients x f q rnd =
     bind_err
       (fold_err (\<lambda>i coefficients.
            bind_err (randint 0 (q - 1) (rnd (nat (i - 1)))) (\<lambda>c. Inr (coefficients @ [c])))
          [1..f] [])
       (\<lambda>coefficients. Inr (coefficients @ [x]))"

text \<open>
  \<^verbatim>\<open>
  def polynomial(val, coefficients, f, q):
      total = 0;
      for i, coeff in enumerate(coefficients):
          total =  (total + coeff * power(val, (f - i), q)) % q
      return total
  \<close>
\<close>

definition sol10_polynomial :: "int \<Rightarrow> int list \<Rightarrow> int \<Rightarrow> int \<Rightarrow> py_error + int" where
  "sol10_polynomial val coefficients f q =
     fold_err (\<lambda>(i, coeff) total.
         bind_err (power val (f - int i) q) (\<lambda>pw. py_mod (total + coeff * pw) q))
       (zip [0..<length coefficients] coefficients) 0"

text \<open>
  \<^verbatim>\<open>
  def share(x, f, n, q):
      coefficients = generateCoefficients(x,f,q)
      shares = []
      for i in range(n):
          val = random.randint(0, q-1)
          share = polynomial(val, coefficients, f, q)
          shares.append((val,share))
      return shares
  \<close>
  The evaluation points are drawn after the coefficients: the point of round \<open>i\<close> is draw
  number \<open>f + i\<close> of the stream (number \<open>i\<close> when \<open>f\<close> is negative and no coefficient is drawn).
\<close>

definition sol10_share ::
  "int \<Rightarrow> int \<Rightarrow> int \<Rightarrow> int \<Rightarrow> (nat \<Rightarrow> int) \<Rightarrow> py_error + (int \<times> int) list" where
  "sol10_share x f n q rnd =
     bind_err (sol10_generateCoefficients x f q rnd) (\<lambda>coefficients.
       fold_err (\<lambda>i shares.
           bind_err (randint 0 (q - 1) (rnd (nat f + nat i))) (\<lambda>val.
           bind_err (sol10_polynomial val coefficients f q) (\<lambda>share.
           Inr (shares @ [(val, share)]))))
         [0..n - 1] [])"

text \<open>
  \<^verbatim>\<open>
  def KeyGen(p,q,g,n,f):
      s = random.randint(2, q-1)
      shares = share(s, f, n, q)
      pk = power(g,s,p)
      return (pk, shares)
  \<close>
\<close>

definition sol10_KeyGen ::
  "int \<Rightarrow> int \<Rightarrow> int \<Rightarrow> int \<Rightarrow> int \<Rightarrow> (nat \<Rightarrow> int) \<Rightarrow> py_error + int \<times> (int \<times> int) list" where
  "sol10_KeyGen p q g n f rnd =
     bind_err (randint 2 (q - 1) (rnd 0)) (\<lambda>s.
     bind_err (sol10_share s f n q (\<lambda>k. rnd (Suc k))) (\<lambda>shares.
     bind_err (power g s p) (\<lambda>pk.
     Inr (pk, shares))))"

text \<open>
  \<^verbatim>\<open>
  def encrypt(p,q,g,pk,m):
      r = random.randint(2, q-1)
      R = power(g, r, p)
      C = (power(pk, r, p) * m) % p
      return (R,C)
  \<close>
\<close>

definition encrypt ::
  "int \<Rightarrow> int \<Rightarrow> int \<Rightarrow> int \<Rightarrow> int \<Rightarrow> (nat \<Rightarrow> int) \<Rightarrow> py_error + int \<times> int" where
  "encrypt p q g pk m rnd =
     bind_err (randint 2 (q - 1) (rnd 0)) (\<lambda>r.
     bind_err (power g r p) (\<lambda>R.
     bind_err (power pk r p) (\<lambda>K.
     bind_err (py_mod (K * m) p) (\<lambda>C.
     Inr (R, C)))))"

text \<open>
  \<^verbatim>\<open>
  def decrypt(p,q,g,pk,sk,c):
      (x_i,sk_i) = sk
      (R,C) = c
      d_i = power(R,sk_i,p)
      return (x_i,d_i)
  \<close>
\<close>

definition decrypt ::
  "int \<Rightarrow> int \<Rightarrow> int \<Rightarrow> int \<Rightarrow> int \<times> int \<Rightarrow> int \<times> int \<Rightarrow> py_error + int \<times> int" where
  "decrypt p q g pk sk c =
     (case sk of (x_i, sk_i) \<Rightarrow> case c of (R, C) \<Rightarrow>
        bind_err (power R sk_i p) (\<lambda>d_i. Inr (x_i, d_i)))"

text \<open>
  \<^verbatim>\<open>
  def recover(p,q,g,D,c):
      (R,C) = c
      prod = 1
      for i,share_i in enumerate(D):
          x_i,d_i = share_i
          exp = 1
          for j,share_j in enumerate(D):
              x_j, d_j = share_j
              if i != j :
                  exp = (exp * (x_j%q) * modInverse(x_j - x_i,q)) % q
          prod = (prod * power(d_i,exp,p)) % p
      val = (C * modInverse(prod,p)) % p
      return val
  \<close>
  \<open>recover_exp\<close> is the inner loop: the exponent of \<open>d_i\<close>.
\<close>

definition recover_exp :: "int \<Rightarrow> (int \<times> int) list \<Rightarrow> nat \<Rightarrow> int \<Rightarrow> py_error + int" where
  "recover_exp q D i x_i =
     fold_err (\<lambda>(j, (x_j, d_j)) exp.
         if i \<noteq> j then
           bind_err (py_mod x_j q) (\<lambda>xq.
           bind_err (modInverse (x_j - x_i) q) (\<lambda>inv.
           py_mod (exp * xq * inv) q))
         else Inr exp)
       (zip [0..<length D] D) 1"

definition recover ::
  "int \<Rightarrow> int \<Rightarrow> int \<Rightarrow> (int \<times> int) list \<Rightarrow> int \<times> int \<Rightarrow> py_error + int" where
  "recover p q g D c =
     (case c of (R, C) \<Rightarrow>
        bind_err
          (fold_err (\<lambda>(i, (x_i, d_i)) prod.
               bind_err (recover_exp q D i x_i) (\<lambda>exp.
               bind_err (power d_i exp p) (\<lambda>pw.
               py_mod (prod * pw) p)))
             (zip [0..<length D] D) 1)
          (\<lambda>prod.
             bind_err (modInverse prod p) (\<lambda>inv.
             py_mod (C * inv) p)))"

text \<open>
  The partial decryptions, as \<open>main\<close> collects them from the selected shares \<open>s\<close> (it
  passes \<open>g\<close> and \<open>q\<close> in exchanged positions; \<open>decrypt\<close> uses neither):
  \<^verbatim>\<open>
      D = []
      for s_i in s:
          D.append(decrypt(p,g,q,pk,s_i,c))
  \<close>
\<close>

definition decrypt_each ::
  "int \<Rightarrow> int \<Rightarrow> int \<Rightarrow> int \<Rightarrow> (int \<times> int) list \<Rightarrow> int \<times> int \<Rightarrow> py_error + (int \<times> int) list" where
  "decrypt_each p q g pk s c =
     fold_err (\<lambda>s_i D. bind_err (decrypt p g q pk s_i c) (\<lambda>d. Inr (D @ [d]))) s []"

section \<open>Threshold ElGamal, submitted solution (Exercise10/Ordiales\_Inaky\_10-1.py)\<close>

text \<open>
  \<open>power\<close>, \<open>modInverse\<close>, \<open>polynomial\<close> and \<open>reconstruct\<close> of this file are the same text as
  in Exercise09; \<open>share\<close> is the same text too, over this file's \<open>generateCoefficients\<close>:
  \<^verbatim>\<open>
  def generateCoefficients(x, f, p):
      coeffs = []
      coeffs.append(x)
      for i in range(0,f):
          coeffs.append(random.randint(0, p-1))
      return coeffs
  \<close>
\<close>

definition ex10_generateCoefficients ::
  "int \<Rightarrow> int \<Rightarrow> int \<Rightarrow> (nat \<Rightarrow> int) \<Rightarrow> py_error + int list" where
  "ex10_generateCoefficients x f p rnd =
     fold_err (\<lambda>i coeffs. bind_err (randint 0 (p - 1) (rnd (nat i))) (\<lambda>c. Inr (coeffs @ [c])))
       [0..f - 1] [x]"

definition ex10_share ::
  "int \<Rightarrow> int \<Rightarrow> int \<Rightarrow> int \<Rightarrow> (nat \<Rightarrow> int) \<Rightarrow> py_error + (int \<times> int) list" where
  "ex10_share x f n p rnd =
     bind_err (ex10_generateCoefficients x f p rnd) (\<lambda>coeffs.
       fold_err (\<lambda>i shares.
           bind_err (polynomial i coeffs f p) (\<lambda>polVal. Inr (shares @ [(i, polVal)])))
         [1..n] [])"

text \<open>
  \<^verbatim>\<open>
  def KeyGen(g, q, p, f, n):
      x = random.randint(2, q-1)
      y = power(g, x, p)
      keys = []
      keys.append(x)
      keys.append(y)
      xi = share(x, f, n, p)
      keys.append(xi)
      return keys
  \<close>
  The three-element list \<open>[x, y, xi]\<close> is a triple.
\<close>

definition ex10_KeyGen ::
  "int \<Rightarrow> int \<Rightarrow> int \<Rightarrow> int \<Rightarrow> int \<Rightarrow> (nat \<Rightarrow> int) \<Rightarrow> py_error + int \<times> int \<times> (int \<times> int) list" where
  "ex10_KeyGen g q p f n rnd =
     bind_err (randint 2 (q - 1) (rnd 0)) (\<lambda>x.
     bind_err (power g x p) (\<lambda>y.
     bind_err (ex10_share x f n p (\<lambda>k. rnd (Suc k))) (\<lambda>xi.
     Inr (x, y, xi))))"

text \<open>
  \<^verbatim>\<open>
  def Dec(ski, R, p):
      di = power(R, ski[1], p)
      return (ski[0], di)
  \<close>
\<close>

definition Dec :: "int \<times> int \<Rightarrow> int \<Rightarrow> int \<Rightarrow> py_error + int \<times> int" where
  "Dec ski R p = bind_err (power R (snd ski) p) (\<lambda>di. Inr (fst ski, di))"

text \<open>
  The hashing of a group element,
  \<^verbatim>\<open>
      value = value.to_bytes((value.bit_length() + 7) // 8, 'big')
      hash_value = SHA256.new(value).digest()
      hash_value = int.from_bytes(hash_value, 'big')
  \<close>
  uses the SHA-256 of PyCryptodome, which is no part of the repository: the map from the
  bytes' integer to the digest's integer is the parameter \<open>sha\<close>. \<open>to_bytes\<close> raises
  \<open>OverflowError\<close> on a negative integer.
\<close>

definition hash_value :: "(int \<Rightarrow> int) \<Rightarrow> int \<Rightarrow> py_error + int" where
  "hash_value sha v = (if v < 0 then Inl OverflowError else Inr (sha v))"

text \<open>
  \<^verbatim>\<open>
  def Enc(g, q, p, pk, m):
      r = random.randint(2, q-1)
      R = power(g, r, p)
      value = power(pk, r, p)
      (hashing of value)
      C = m ^ (hash_value)
      return (R, C)
  \<close>
\<close>

definition Enc ::
  "(int \<Rightarrow> int) \<Rightarrow> int \<Rightarrow> int \<Rightarrow> int \<Rightarrow> int \<Rightarrow> int \<Rightarrow> (nat \<Rightarrow> int) \<Rightarrow> py_error + int \<times> int" where
  "Enc sha g q p pk m rnd =
     bind_err (randint 2 (q - 1) (rnd 0)) (\<lambda>r.
     bind_err (power g r p) (\<lambda>R.
     bind_err (power pk r p) (\<lambda>v.
     bind_err (hash_value sha v) (\<lambda>h.
     Inr (R, m XOR h)))))"

text \<open>
  \<^verbatim>\<open>
  def Recover(S, C, p, q):
      n = len(S)
      value = 1
      for i in range(0, n):
          numerator   = 1
          denominator = 1
          for j in range(0, n):
              if i!=j:
                  numerator   *= S[j][0]
                  numerator   %= p
                  denominator *= (S[j][0] - S[i][0])
                  denominator %= p
          lamb   = modInverse(denominator, p) * numerator
          lamb  %= p
          value *= power(S[i][1], lamb, p)
          value %= p
      (hashing of value)
      m = hash_value ^ C
      return m
  \<close>
  The inner loop is the one of \<open>reconstruct\<close>, here with the modulus \<open>p\<close>. \<open>Recover_lamb\<close>
  is the coefficient \<open>lamb\<close> of round \<open>i\<close>, \<open>Recover_value\<close> the product after the outer loop.
\<close>

definition Recover_lamb :: "(int \<times> int) list \<Rightarrow> int \<Rightarrow> nat \<Rightarrow> py_error + int" where
  "Recover_lamb S p i =
     bind_err (lagrange_terms S p i) (\<lambda>(numerator, denominator).
     bind_err (modInverse denominator p) (\<lambda>inv.
     py_mod (inv * numerator) p))"

definition Recover_value :: "(int \<times> int) list \<Rightarrow> int \<Rightarrow> py_error + int" where
  "Recover_value S p =
     fold_err (\<lambda>i v.
         bind_err (Recover_lamb S p i) (\<lambda>lamb.
         bind_err (power (snd (S ! i)) lamb p) (\<lambda>pw.
         py_mod (v * pw) p)))
       [0..<length S] 1"

definition Recover ::
  "(int \<Rightarrow> int) \<Rightarrow> (int \<times> int) list \<Rightarrow> int \<Rightarrow> int \<Rightarrow> int \<Rightarrow> py_error + int" where
  "Recover sha S C p q =
     bind_err (Recover_value S p) (\<lambda>v.
     bind_err (hash_value sha v) (\<lambda>h.
     Inr (h XOR C)))"

section \<open>The accumulator (Exercise11/accumulator.py)\<close>

text \<open>
  Python's three-argument \<open>pow(b, e, m)\<close> is a builtin. It raises \<open>ValueError\<close> for \<open>m = 0\<close>;
  for \<open>e \<ge> 0\<close> it returns \<open>b ^ e % m\<close>; for \<open>e < 0\<close> it first inverts \<open>b\<close> modulo \<open>m\<close> and
  raises \<open>ValueError\<close> when \<open>b\<close> has no inverse. The inverse is the residue \<open>y\<close> of the
  modulus' sign with \<open>b * y % m = 1 % m\<close>; \<open>py_inverse\<close> finds it by search.
\<close>

definition py_inverse :: "int \<Rightarrow> int \<Rightarrow> py_error + int" where
  "py_inverse b m =
     (case List.find (\<lambda>y. (b * y) mod m = 1 mod m) (if 0 < m then [0..m - 1] else [m + 1..0]) of
        None \<Rightarrow> Inl ValueError
      | Some y \<Rightarrow> Inr y)"

definition py_pow :: "int \<Rightarrow> int \<Rightarrow> int \<Rightarrow> py_error + int" where
  "py_pow b e m =
     (if m = 0 then Inl ValueError
      else if e < 0 then bind_err (py_inverse b m) (\<lambda>y. Inr (y ^ nat (- e) mod m))
      else Inr (b ^ nat e mod m))"

definition py_set :: "'a list \<Rightarrow> int \<Rightarrow> 'a \<Rightarrow> py_error + 'a list" where
  "py_set xs i v =
     (case py_index (length xs) i of None \<Rightarrow> Inl IndexError | Some k \<Rightarrow> Inr (xs[k := v]))"

text \<open>\<open>secrets.randbelow(N)\<close> returns a draw of \<open>[0, N)\<close> and raises \<open>ValueError\<close> for \<open>N \<le> 0\<close>.\<close>

definition randbelow :: "int \<Rightarrow> int \<Rightarrow> py_error + int" where
  "randbelow N draw = (if 0 < N then Inr draw else Inl ValueError)"

text \<open>
  The object's attributes. \<open>acc_H\<close> is the attribute \<open>self.H\<close>,
  \<open>lambda i, x: hash_to_prime(str(i)+x, self.seed)\<close>: \<open>hash_to_prime\<close> goes through SHA-256
  and a Miller-Rabin test on Python's seeded generator, so the map from (slot, value) to
  the exponent is a parameter of the model.
\<close>

record accumulator =
  acc_p :: int
  acc_q :: int
  acc_N :: int
  acc_phi :: int
  acc_seed :: int
  acc_n :: int
  acc_x :: "string list"
  acc_w :: "int list"
  acc_security :: int
  acc_r :: int
  acc_H :: "int \<Rightarrow> string \<Rightarrow> int"
  acc_alpha :: int

text \<open>
  \<^verbatim>\<open>
  def __init__(self,  p: int, q: int, n=1000, seed=None, security=2048):
      self.p = p
      self.q = q
      self.N = self.p * self.q
      self.phi = (self.p - 1) * (self.q - 1)
      if seed is None:
          seed = time.time_ns()
      self.seed = seed
      self.n = n
      self.x = ["" for _ in range(self.n)]
      self.w = [0] * self.n
      self.security = security
      self.r = secrets.randbelow(self.N)
      self.H = lambda i, x: hash_to_prime(str(i)+x, self.seed)
      prod = 1
      for i in range(self.n):
          px = self.H(i, self.x[i])
          prod *= pow(px, -1, self.phi) % self.N
      self.alpha = pow(self.r, prod, self.N)
      for i in range(self.n):
          p = self.H(i, self.x[i])
          self.w[i] = pow(self.alpha, pow(p, -1, self.phi), self.N)
  \<close>
  \<open>now\<close> is the clock's value, \<open>draw\<close> the value \<open>randbelow\<close> returns, \<open>H\<close> the hash.
\<close>

definition Accumulator_init ::
  "int \<Rightarrow> int \<Rightarrow> int \<Rightarrow> int option \<Rightarrow> int \<Rightarrow> int \<Rightarrow> int \<Rightarrow> (int \<Rightarrow> string \<Rightarrow> int)
     \<Rightarrow> py_error + accumulator" where
  "Accumulator_init p q n seed security now draw H =
     (let N = p * q;
          phi = (p - 1) * (q - 1);
          seed' = (case seed of None \<Rightarrow> now | Some s \<Rightarrow> s);
          x = replicate (nat n) [];
          w = replicate (nat n) 0
      in
        bind_err (randbelow N draw) (\<lambda>r.
        bind_err
          (fold_err (\<lambda>i prod.
               bind_err (py_get x i) (\<lambda>xi.
               bind_err (py_pow (H i xi) (- 1) phi) (\<lambda>inv.
               bind_err (py_mod inv N) (\<lambda>t.
               Inr (prod * t)))))
             [0..n - 1] 1)
          (\<lambda>prod.
        bind_err (py_pow r prod N) (\<lambda>alpha.
        bind_err
          (fold_err (\<lambda>i w.
               bind_err (py_get x i) (\<lambda>xi.
               bind_err (py_pow (H i xi) (- 1) phi) (\<lambda>e.
               bind_err (py_pow alpha e N) (\<lambda>wi.
               py_set w i wi))))
             [0..n - 1] w)
          (\<lambda>w'.
        Inr \<lparr> acc_p = p, acc_q = q, acc_N = N, acc_phi = phi, acc_seed = seed', acc_n = n,
              acc_x = x, acc_w = w', acc_security = security, acc_r = r, acc_H = H,
              acc_alpha = alpha \<rparr>)))))"

text \<open>
  \<^verbatim>\<open>
  def update(self, i: int, v: str) -> bool:
      if self.x[i] == v:
          return False
      pv = self.H(i, v)
      px = self.H(i, self.x[i])
      hi = pow(px, -1, self.phi)
      self.alpha = pow(self.alpha, hi*pv, self.N)
      for j in range(self.n):
          if j != i:
              self.w[j] = pow(self.w[j], hi*pv, self.N)
      self.x[i] = v
      return True
  \<close>
  The result is the returned boolean and the object after the call. (The object a raise
  leaves behind is not part of the result.)
\<close>

definition update :: "accumulator \<Rightarrow> int \<Rightarrow> string \<Rightarrow> py_error + bool \<times> accumulator" where
  "update acc i v =
     bind_err (py_get (acc_x acc) i) (\<lambda>xi.
       if xi = v then Inr (False, acc)
       else
         let pv = acc_H acc i v;
             px = acc_H acc i xi
         in
           bind_err (py_pow px (- 1) (acc_phi acc)) (\<lambda>hi.
           bind_err (py_pow (acc_alpha acc) (hi * pv) (acc_N acc)) (\<lambda>alpha'.
           bind_err
             (fold_err (\<lambda>j w.
                  if j \<noteq> i then
                    bind_err (py_get w j) (\<lambda>wj.
                    bind_err (py_pow wj (hi * pv) (acc_N acc)) (\<lambda>wj'.
                    py_set w j wj'))
                  else Inr w)
                [0..acc_n acc - 1] (acc_w acc))
             (\<lambda>w'.
           bind_err (py_set (acc_x acc) i v) (\<lambda>x'.
           Inr (True, acc\<lparr>acc_alpha := alpha', acc_w := w', acc_x := x'\<rparr>))))))"

text \<open>
  \<^verbatim>\<open>
  def proof(self, i: int, x: str) -> int:
      p = self.H(i, x)
      return pow(self.w[i], p, self.N)

  def is_member(self, i, x) -> bool:
      if self.x[i] != x:
          return False
      proof = self.proof(i, x)
      return proof == self.alpha
  \<close>
\<close>

definition proof_acc :: "accumulator \<Rightarrow> int \<Rightarrow> string \<Rightarrow> py_error + int" where
  "proof_acc acc i x =
     (let p = acc_H acc i x in
        bind_err (py_get (acc_w acc) i) (\<lambda>wi. py_pow wi p (acc_N acc)))"

definition is_member :: "accumulator \<Rightarrow> int \<Rightarrow> string \<Rightarrow> py_error + bool" where
  "is_member acc i x =
     bind_err (py_get (acc_x acc) i) (\<lambda>xi.
       if xi \<noteq> x then Inr False
       else bind_err (proof_acc acc i x) (\<lambda>prf. Inr (prf = acc_alpha acc)))"

text \<open>A sequence of \<open>update\<close> calls, each on the object the previous one left.\<close>

fun updates :: "accumulator \<Rightarrow> (int \<times> string) list \<Rightarrow> py_error + accumulator" where
  "updates acc [] = Inr acc"
| "updates acc ((i, v) # ops) = bind_err (update acc i v) (\<lambda>(changed, acc'). updates acc' ops)"

section \<open>Primes\<close>

text \<open>
  The scripts take their primes from PyCryptodome (\<open>number.getPrime\<close>, \<open>number.isPrime\<close>) or
  from the caller. A prime is an integer above 1 with no divisor in \<open>[2, p - 1]\<close>.
\<close>

definition is_prime :: "int \<Rightarrow> bool" where
  "is_prime p \<longleftrightarrow> 1 < p \<and> (\<forall>d\<in>set [2..p - 1]. \<not> d dvd p)"

section \<open>Polynomial functions and the terms of Lagrange interpolation\<close>

text \<open>
  \<open>pdeg m g\<close>: the function \<open>g\<close> on the integers is a polynomial function of degree at
  most \<open>m\<close>. \<open>poly_eval cs\<close> is the polynomial with the coefficients \<open>cs\<close>, constant term
  first, the polynomial \<open>polynomial\<close> of Exercise09 evaluates modulo \<open>q\<close>.
\<close>

inductive pdeg :: "nat \<Rightarrow> (int \<Rightarrow> int) \<Rightarrow> bool" where
  pdeg_const: "pdeg m (\<lambda>t. c)"
| pdeg_add: "pdeg m g \<Longrightarrow> pdeg m h \<Longrightarrow> pdeg m (\<lambda>t. g t + h t)"
| pdeg_lin: "pdeg m g \<Longrightarrow> pdeg (Suc m) (\<lambda>t. (t - a) * g t)"
| pdeg_up: "pdeg m g \<Longrightarrow> pdeg (Suc m) g"

fun poly_eval :: "int list \<Rightarrow> int \<Rightarrow> int" where
  "poly_eval [] t = 0"
| "poly_eval (c # cs) t = c + t * poly_eval cs t"

text \<open>
  The numerator and the denominator \<open>reconstruct\<close> builds for the share \<open>i\<close>, before
  reduction, and the value \<open>modInverse\<close> returns for a residue \<open>d\<close> of a modulus \<open>q > 0\<close>.
\<close>

definition lag_num :: "(int \<times> int) list \<Rightarrow> nat \<Rightarrow> int" where
  "lag_num shares i = (\<Prod>j\<in>{..<length shares} - {i}. fst (shares ! j))"

definition lag_den :: "(int \<times> int) list \<Rightarrow> nat \<Rightarrow> int" where
  "lag_den shares i = (\<Prod>j\<in>{..<length shares} - {i}. (fst (shares ! j) - fst (shares ! i)))"

definition fermat_inv :: "int \<Rightarrow> int \<Rightarrow> int" where
  "fermat_inv d q = (if d mod q = 0 then 0 else d ^ nat (q - 2) mod q)"

text \<open>
  The exponent \<open>recover\<close> of the reference solution computes for the partial decryption
  \<open>i\<close>, for a modulus \<open>q > 1\<close>.
\<close>

definition lagrange_exp :: "int \<Rightarrow> (int \<times> int) list \<Rightarrow> nat \<Rightarrow> int" where
  "lagrange_exp q D i =
     (\<Prod>j\<in>{..<length D} - {i}.
        (fst (D ! j) mod q) * fermat_inv ((fst (D ! j) - fst (D ! i)) mod q) q) mod q"

section \<open>Concrete inputs\<close>

text \<open>
  Small inputs on which the definitions are evaluated below: a stream of draws, and an
  accumulator over \<open>p = 3\<close>, \<open>q = 5\<close> with two slots, as \<open>__init__\<close> builds it from the
  draw \<open>r = 2\<close> and a hash that sends the empty value to 3 and every other value to 5.
\<close>

definition example_draws :: "nat \<Rightarrow> int" where
  "example_draws k = (if k = 0 then 2 else 1)"

definition distinct_draws :: "nat \<Rightarrow> int" where
  "distinct_draws k = (if k = 0 \<or> k = 3 then 2 else 1)"

definition duplicate_shares :: "(int \<times> int) list" where
  "duplicate_shares = [(1, 5), (1, 3)]"

definition example_H :: "int \<Rightarrow> string \<Rightarrow> int" where
  "example_H i s = (if s = [] then 3 else 5)"

definition example_acc :: accumulator where
  "example_acc =
     \<lparr> acc_p = 3, acc_q = 5, acc_N = 15, acc_phi = 8, acc_seed = 0, acc_n = 2,
       acc_x = [[], []], acc_w = [8, 8], acc_security = 0, acc_r = 2, acc_H = example_H,
       acc_alpha = 2 \<rparr>"

text \<open>
  An accumulator over \<open>p = 7\<close>, \<open>q = 3\<close> with one slot, as \<open>__init__\<close> builds it from the
  draw \<open>r = 2\<close> and a hash that sends the slots \<open>i \<ge> 0\<close> to 5 and the indices \<open>i < 0\<close> to 3.
\<close>

definition negative_H :: "int \<Rightarrow> string \<Rightarrow> int" where
  "negative_H i s = (if i < 0 then 3 else 5)"

definition negative_acc :: accumulator where
  "negative_acc =
     \<lparr> acc_p = 7, acc_q = 3, acc_N = 21, acc_phi = 12, acc_seed = 0, acc_n = 1,
       acc_x = [[]], acc_w = [2], acc_security = 0, acc_r = 2, acc_H = negative_H,
       acc_alpha = 11 \<rparr>"

text \<open>
  An accumulator over \<open>p = 9\<close>, \<open>q = 2\<close> with one slot, as \<open>__init__\<close> builds it from the
  draw \<open>r = 5\<close> and a hash that sends everything to 13.
\<close>

definition composite_H :: "int \<Rightarrow> string \<Rightarrow> int" where
  "composite_H i s = 13"

definition composite_acc :: accumulator where
  "composite_acc =
     \<lparr> acc_p = 9, acc_q = 2, acc_N = 18, acc_phi = 8, acc_seed = 0, acc_n = 1,
       acc_x = [[]], acc_w = [5], acc_security = 0, acc_r = 5, acc_H = composite_H,
       acc_alpha = 11 \<rparr>"

section \<open>The invariant of the accumulator\<close>

text \<open>
  The lists \<open>x\<close> and \<open>w\<close> have \<open>n\<close> entries, \<open>alpha\<close> is a residue modulo \<open>N\<close>, and every
  slot's witness raised to the slot's exponent is \<open>alpha\<close> modulo \<open>N\<close>.
\<close>

definition acc_inv :: "accumulator \<Rightarrow> bool" where
  "acc_inv acc \<longleftrightarrow>
     length (acc_x acc) = nat (acc_n acc) \<and> length (acc_w acc) = nat (acc_n acc)
     \<and> 0 \<le> acc_alpha acc \<and> acc_alpha acc < acc_N acc
     \<and> (\<forall>j<nat (acc_n acc).
           (acc_w acc ! j) ^ nat (acc_H acc (int j) (acc_x acc ! j)) mod acc_N acc = acc_alpha acc)"

section \<open>Basic facts about the error monad and the loops\<close>

lemma bind_err_Inr [simp]: "bind_err (Inr v) f = f v"
  by (simp add: bind_err_def)

lemma bind_err_Inl [simp]: "bind_err (Inl e) f = Inl e"
  by (simp add: bind_err_def)

lemma bind_err_eq_Inr: "bind_err m f = Inr r \<longleftrightarrow> (\<exists>v. m = Inr v \<and> f v = Inr r)"
  by (cases m) simp_all

lemma py_mod_nonzero [simp]: "b \<noteq> 0 \<Longrightarrow> py_mod a b = Inr (a mod b)"
  by (simp add: py_mod_def)

lemma fold_err_append:
  "fold_err f (xs @ ys) s = bind_err (fold_err f xs s) (fold_err f ys)"
proof (induction xs arbitrary: s)
  case Nil
  show ?case by simp
next
  case (Cons x xs)
  show ?case
  proof (cases "f x s")
    case (Inl e)
    then show ?thesis by simp
  next
    case (Inr s')
    then show ?thesis by (simp add: Cons.IH)
  qed
qed

lemma fold_err_pure:
  "(\<And>x s. x \<in> set xs \<Longrightarrow> f x s = Inr (g x s)) \<Longrightarrow> fold_err f xs s = Inr (fold g xs s)"
  by (induction xs arbitrary: s) simp_all

lemma py_get_nat [simp]: "k < length xs \<Longrightarrow> py_get xs (int k) = Inr (xs ! k)"
  by (simp add: py_get_def py_index_def)

lemma py_set_nat [simp]: "k < length xs \<Longrightarrow> py_set xs (int k) v = Inr (xs[k := v])"
  by (simp add: py_set_def py_index_def)

lemma py_get_neg:
  "- int (length xs) \<le> i \<Longrightarrow> i < 0 \<Longrightarrow> py_get xs i = Inr (xs ! nat (int (length xs) + i))"
  by (simp add: py_get_def py_index_def)

lemma py_set_neg:
  "- int (length xs) \<le> i \<Longrightarrow> i < 0 \<Longrightarrow> py_set xs i v = Inr (xs[nat (int (length xs) + i) := v])"
  by (simp add: py_set_def py_index_def)

section \<open>Properties of modular exponentiation\<close>

lemma power_loop_eq:
  "0 < p \<Longrightarrow> 0 \<le> r \<Longrightarrow> r < p \<Longrightarrow> power_loop r x e p = (r * x ^ nat e) mod p"
proof (induction r x e p rule: power_loop.induct)
  case (1 result x e p)
  show ?case
  proof (cases "e > 0")
    case False
    with "1.prems" show ?thesis
      by (subst power_loop.simps) simp
  next
    case pos: True
    show ?thesis
    proof (cases "e AND 1 = 0")
      case True
      then have ev: "e mod 2 = 0"
        by (simp add: and_one_eq)
      then obtain k where k: "e = 2 * k"
        by (metis mod_eq_0_iff_dvd dvdE)
      with pos have kpos: "0 \<le> k" by simp
      have sh: "drop_bit 1 e = k"
        using k by (simp add: drop_bit_eq_div)
      have "power_loop result x e p = power_loop result ((x * x) mod p) (drop_bit 1 e) p"
        using pos True by (subst power_loop.simps) simp
      also have "\<dots> = (result * ((x * x) mod p) ^ nat k) mod p"
        using "1.IH"(1) [OF pos True "1.prems"] sh by simp
      also have "\<dots> = (result * (x * x) ^ nat k) mod p"
        by (metis mod_mult_right_eq power_mod)
      also have "(x * x) ^ nat k = x ^ nat e"
        using k kpos by (simp add: nat_mult_distrib power_mult power2_eq_square)
      finally show ?thesis .
    next
      case False
      have e1: "nat e = Suc (nat (e - 1))"
        using pos by simp
      have bounds: "0 \<le> (result * x) mod p" "(result * x) mod p < p"
        using "1.prems"(1) by simp_all
      have "power_loop result x e p = power_loop ((result * x) mod p) x (e - 1) p"
        using pos False by (subst power_loop.simps) simp
      also have "\<dots> = (((result * x) mod p) * x ^ nat (e - 1)) mod p"
        using "1.IH"(2) [OF pos False "1.prems"(1) bounds] .
      also have "\<dots> = (result * x ^ nat e) mod p"
        by (simp add: e1 mod_mult_left_eq mult.assoc)
      finally show ?thesis .
    qed
  qed
qed

text \<open>
  The value of \<open>power\<close> for a positive modulus. (A non-positive exponent leaves the loop
  at once, and \<open>nat e = 0\<close> then.)
\<close>

lemma power_eq:
  assumes m: "0 < m"
  shows "power b e m = Inr (if b mod m = 0 then 0 else b ^ nat e mod m)"
proof (cases "b mod m = 0")
  case True
  with m show ?thesis
    by (simp add: power_def)
next
  case False
  then have "m \<noteq> 1" by auto
  with m have m1: "1 < m" by simp
  have "power_loop 1 (b mod m) e m = (1 * (b mod m) ^ nat e) mod m"
    using m m1 by (intro power_loop_eq) simp_all
  also have "\<dots> = b ^ nat e mod m"
    by (simp add: power_mod)
  finally show ?thesis
    using False m by (simp add: power_def)
qed

lemma power_range:
  assumes "0 < m" "power b e m = Inr v"
  shows "0 \<le> v \<and> v < m"
  using assms by (auto simp: power_eq split: if_splits)

text \<open>
  C8. For every integer base, every exponent \<open>\<ge> 0\<close> and every modulus \<open>> 0\<close>,
  \<open>power\<close> returns \<open>base ^ exponent mod modulus\<close> when \<open>base mod modulus\<close> is nonzero, and
  \<open>0\<close> whenever \<open>base mod modulus\<close> is \<open>0\<close>, whatever the exponent (also for exponent 0).
\<close>

theorem power_correct:
  "0 \<le> e \<Longrightarrow> 0 < m \<Longrightarrow>
     power b e m = Inr (if b mod m = 0 then 0 else b ^ nat e mod m)"
  by (rule power_eq)

theorem power_correct_witness:
  "(0::int) \<le> 5 \<and> (0::int) < 7 \<and> power 3 5 7 = Inr 5 \<and> power 14 0 7 = Inr 0"
  using power_correct [of 5 7 3] power_correct [of 0 7 14] by simp

section \<open>The accumulator: repeated and successful updates\<close>

lemma example_acc_init:
  "Accumulator_init 3 5 2 None 0 0 2 example_H = Inr example_acc"
  by (simp add: Accumulator_init_def example_acc_def example_H_def randbelow_def
      py_get_def py_set_def py_index_def py_pow_def py_inverse_def upto.simps numeral_2_eq_2)

text \<open>
  C9. For every in-range slot index \<open>i\<close>, if the stored value \<open>x[i]\<close> already equals \<open>v\<close>
  then \<open>update(i, v)\<close> returns false and leaves the whole object unchanged: \<open>alpha\<close>, every
  witness and every stored value are the same before and after the call.
\<close>

theorem update_same_value_unchanged:
  assumes "length (acc_x acc) = nat (acc_n acc)"
    and "0 \<le> i" and "i < acc_n acc"
    and "acc_x acc ! nat i = v"
  shows "update acc i v = Inr (False, acc)"
  using assms by (simp add: update_def py_get_def py_index_def)

theorem update_same_value_unchanged_witness:
  "length (acc_x example_acc) = nat (acc_n example_acc) \<and> (0::int) \<le> 1 \<and> 1 < acc_n example_acc
   \<and> acc_x example_acc ! nat 1 = [] \<and> update example_acc 1 [] = Inr (False, example_acc)"
proof -
  have h: "length (acc_x example_acc) = nat (acc_n example_acc)" "1 < acc_n example_acc"
    "acc_x example_acc ! nat 1 = []"
    by (simp_all add: example_acc_def)
  from update_same_value_unchanged [OF h(1) _ h(2) h(3)] h show ?thesis
    by simp
qed

lemma py_set_Inr: "py_set xs j v = Inr ys \<Longrightarrow> 0 \<le> j \<Longrightarrow> ys = xs[nat j := v]"
  by (auto simp: py_set_def py_index_def split: if_splits)

lemma witness_loop_keeps_slot:
  assumes "fold_err (\<lambda>j w. if j \<noteq> i then
                    bind_err (py_get w j) (\<lambda>wj.
                    bind_err (py_pow wj e N) (\<lambda>wj'.
                    py_set w j wj'))
                  else Inr w) js w0 = Inr w'"
    and "0 \<le> i" and "\<forall>j\<in>set js. 0 \<le> j"
  shows "w' ! nat i = w0 ! nat i"
  using assms
proof (induction js arbitrary: w0)
  case Nil
  then show ?case by simp
next
  case (Cons j js)
  show ?case
  proof (cases "j = i")
    case True
    with Cons show ?thesis by simp
  next
    case False
    from Cons.prems(1) False obtain wj wj' w1 where
      w1: "py_set w0 j wj' = Inr w1" and
      rest: "fold_err (\<lambda>j w. if j \<noteq> i then
                    bind_err (py_get w j) (\<lambda>wj.
                    bind_err (py_pow wj e N) (\<lambda>wj'.
                    py_set w j wj'))
                  else Inr w) js w1 = Inr w'"
      by (auto simp: bind_err_eq_Inr)
    have j0: "0 \<le> j" using Cons.prems(3) by simp
    have "w1 = w0[nat j := wj']"
      using py_set_Inr [OF w1 j0] .
    moreover have "nat j \<noteq> nat i"
      using False j0 Cons.prems(2) by simp
    ultimately have "w1 ! nat i = w0 ! nat i"
      by simp
    moreover have "w' ! nat i = w1 ! nat i"
      using Cons.IH [OF rest Cons.prems(2)] Cons.prems(3) by simp
    ultimately show ?thesis by simp
  qed
qed

lemma example_acc_update_0:
  "update example_acc 0 ''a''
     = Inr (True, example_acc\<lparr>acc_alpha := 8, acc_w := [8, 2], acc_x := [''a'', []]\<rparr>)"
  by (simp add: update_def example_acc_def example_H_def
      py_get_def py_set_def py_index_def py_pow_def py_inverse_def upto.simps)

text \<open>
  C6, as stated: after every \<open>update(i, newValue)\<close> call that returns true, slot \<open>i\<close>'s own
  witness \<open>w[i]\<close> equals the value \<open>alpha\<close> had immediately before that update. It fails on
  the example object: before the call \<open>alpha = 2\<close>, after it \<open>w[0] = 8\<close>.
\<close>

theorem update_own_witness_counterexample:
  "update example_acc 0 ''a''
     = Inr (True, example_acc\<lparr>acc_alpha := 8, acc_w := [8, 2], acc_x := [''a'', []]\<rparr>)
   \<and> acc_w (example_acc\<lparr>acc_alpha := 8, acc_w := [8, 2], acc_x := [''a'', []]\<rparr>) ! 0
       \<noteq> acc_alpha example_acc"
  by (simp add: example_acc_update_0) (simp add: example_acc_def)

text \<open>
  C6, amended: after every \<open>update(i, newValue)\<close> call with an in-range \<open>i\<close> that returns
  true, slot \<open>i\<close>'s own witness \<open>w[i]\<close> is the witness it was before the call: the loop of
  \<open>update\<close> skips \<open>j = i\<close>, and nothing else assigns to \<open>w\<close>.
\<close>

theorem update_keeps_own_witness:
  assumes "0 \<le> i" and "i < acc_n acc"
    and "update acc i v = Inr (True, acc')"
  shows "acc_w acc' ! nat i = acc_w acc ! nat i"
proof -
  from assms(3) obtain xi where xi: "py_get (acc_x acc) i = Inr xi"
    by (auto simp: update_def bind_err_eq_Inr)
  with assms(3) have ne: "xi \<noteq> v"
    by (auto simp: update_def)
  from assms(3) xi ne obtain hi alpha' w' x' where
    loop: "fold_err (\<lambda>j w. if j \<noteq> i then
                    bind_err (py_get w j) (\<lambda>wj.
                    bind_err (py_pow wj (hi * acc_H acc i v) (acc_N acc)) (\<lambda>wj'.
                    py_set w j wj'))
                  else Inr w) [0..acc_n acc - 1] (acc_w acc) = Inr w'"
    and acc': "acc' = acc\<lparr>acc_alpha := alpha', acc_w := w', acc_x := x'\<rparr>"
    by (auto simp: update_def Let_def bind_err_eq_Inr)
  have "w' ! nat i = acc_w acc ! nat i"
    using witness_loop_keeps_slot [OF loop assms(1)] by simp
  with acc' show ?thesis by simp
qed

theorem update_keeps_own_witness_witness:
  "(0::int) \<le> 0 \<and> 0 < acc_n example_acc
   \<and> update example_acc 0 ''a''
       = Inr (True, example_acc\<lparr>acc_alpha := 8, acc_w := [8, 2], acc_x := [''a'', []]\<rparr>)
   \<and> acc_w (example_acc\<lparr>acc_alpha := 8, acc_w := [8, 2], acc_x := [''a'', []]\<rparr>) ! nat 0
       = acc_w example_acc ! nat 0"
proof -
  have n: "0 < acc_n example_acc"
    by (simp add: example_acc_def)
  from update_keeps_own_witness [OF _ n example_acc_update_0] n example_acc_update_0
  show ?thesis
    by simp
qed

section \<open>Reconstruction from shares with a repeated x-coordinate\<close>

lemma fold_err_invariant:
  assumes "\<And>x s. x \<in> set xs \<Longrightarrow> P s \<Longrightarrow> \<exists>v. f x s = Inr v \<and> P v" and "P s"
  shows "\<exists>v. fold_err f xs s = Inr v \<and> P v"
  using assms
proof (induction xs arbitrary: s)
  case Nil
  then show ?case by simp
next
  case (Cons x xs)
  from Cons.prems(1) [of x s] Cons.prems(2) obtain v where v: "f x s = Inr v" "P v"
    by auto
  have "\<exists>v'. fold_err f xs v = Inr v' \<and> P v'"
    using Cons.prems(1) v(2) by (intro Cons.IH) auto
  with v show ?case by simp
qed

lemma lagrange_terms_total:
  assumes "m \<noteq> 0"
  shows "\<exists>nu de. lagrange_terms shares m i = Inr (nu, de)"
proof -
  have "\<exists>v. lagrange_terms shares m i = Inr v \<and> True"
    unfolding lagrange_terms_def
    using assms by (intro fold_err_invariant) (auto split: prod.splits)
  then show ?thesis by auto
qed

lemma modInverse_range:
  assumes "0 < q"
  shows "\<exists>v. modInverse x q = Inr v \<and> 0 \<le> v \<and> v < q"
  using assms by (simp add: modInverse_def Let_def power_eq)

lemma reconstruct_range:
  assumes q: "0 < q"
  shows "\<exists>v. reconstruct shares q = Inr v \<and> 0 \<le> v \<and> v < q"
  unfolding reconstruct_def
proof (rule fold_err_invariant)
  show "0 \<le> (0::int) \<and> 0 < q" using q by simp
next
  fix i :: nat and s :: int
  obtain nu de where nd: "lagrange_terms shares q i = Inr (nu, de)"
    using lagrange_terms_total [of q shares i] q by auto
  obtain v where v: "modInverse de q = Inr v"
    using modInverse_range [OF q, of de] by auto
  show "\<exists>v. bind_err (lagrange_terms shares q i)
          (\<lambda>(numerator, denominator).
              let numerator' = numerator * snd (shares ! i)
              in bind_err (modInverse denominator q)
                  (\<lambda>inverted. py_mod (s + inverted * numerator') q)) =
         Inr v \<and> 0 \<le> v \<and> v < q"
    using q by (simp add: nd v)
qed

lemma modInverse_zero: "0 < q \<Longrightarrow> modInverse 0 q = Inr 0"
  by (simp add: modInverse_def power_eq)

text \<open>
  C5, as stated: for every set of \<open>f + 1\<close> shares in which some x-coordinate appears twice,
  \<open>reconstruct\<close> raises \<open>DegenerateShareSetError\<close> instead of returning a value, and the
  modular inverse of 0 fails loudly. On two shares with the x-coordinate 1 and the modulus
  7, \<open>reconstruct\<close> returns 0, and so does \<open>modInverse(0, 7)\<close>.
\<close>

theorem reconstruct_duplicate_counterexample:
  "fst (duplicate_shares ! 0) = fst (duplicate_shares ! 1)
   \<and> reconstruct duplicate_shares 7 = Inr 0 \<and> modInverse 0 7 = Inr 0"
  by code_simp

text \<open>
  C5, amended: for every list of shares in which some x-coordinate appears twice and every
  modulus \<open>q > 0\<close>, \<open>reconstruct\<close> raises nothing and returns a value of \<open>[0, q)\<close>; the
  modular inverse of 0 does not fail, \<open>modInverse(0, q)\<close> returns 0.
\<close>

theorem reconstruct_duplicate_returns:
  assumes "0 < q"
    and "i < length shares" and "j < length shares" and "i \<noteq> j"
    and "fst (shares ! i) = fst (shares ! j)"
  shows "(\<exists>v. reconstruct shares q = Inr v \<and> 0 \<le> v \<and> v < q) \<and> modInverse 0 q = Inr 0"
  using assms(1) by (simp add: reconstruct_range modInverse_zero)

theorem reconstruct_duplicate_returns_witness:
  "(0::int) < 7 \<and> 0 < length duplicate_shares \<and> 1 < length duplicate_shares
   \<and> (0::nat) \<noteq> 1 \<and> fst (duplicate_shares ! 0) = fst (duplicate_shares ! 1)
   \<and> (\<exists>v. reconstruct duplicate_shares 7 = Inr v \<and> 0 \<le> v \<and> v < 7) \<and> modInverse 0 7 = Inr 0"
  using reconstruct_duplicate_returns [of 7 0 duplicate_shares 1]
  by (simp add: duplicate_shares_def)

section \<open>Recombination in the two threshold ElGamal scripts\<close>

text \<open>
  The submitted script on \<open>p = 7\<close>, \<open>q = 3\<close>, \<open>g = 2\<close>, \<open>f = 1\<close>, \<open>n = 2\<close>: the secret is
  \<open>x = 2\<close>, the public key 4, the shares \<open>(1, 3)\<close> and \<open>(2, 4)\<close>. With \<open>r = 2\<close>,
  \<open>R = 4\<close> and the mask is \<open>power(pk, r, p) = 2\<close>; the partial decryptions are \<open>(1, 1)\<close>
  and \<open>(2, 4)\<close>.
\<close>

lemma ex10_example_keys:
  "ex10_KeyGen 2 3 7 1 2 example_draws = Inr (2, 4, [(1, 3), (2, 4)])"
  by code_simp

lemma ex10_example_partials:
  "power 2 2 7 = Inr 4 \<and> Dec (1, 3) 4 7 = Inr (1, 1) \<and> Dec (2, 4) 4 7 = Inr (2, 4)"
  by code_simp

lemma Recover_ignores_q: "Recover sha S C p q = Recover sha S C p q'"
  by (simp add: Recover_def)

text \<open>
  C3 on the submitted script: the coefficient \<open>lamb\<close> of the second partial decryption is
  6, a residue modulo \<open>p = 7\<close> and no residue modulo \<open>q = 3\<close>; \<open>recover\<close> of the reference
  solution computes the exponent 2 for it. The product \<open>Recover\<close> hashes is 1, the mask of
  the encryption is 2.
\<close>

theorem Recover_coefficients_mod_p:
  "Recover_lamb [(1, 1), (2, 4)] 7 1 = Inr 6
   \<and> recover_exp 3 [(1, 1), (2, 4)] 1 2 = Inr 2
   \<and> Recover_value [(1, 1), (2, 4)] 7 = Inr 1
   \<and> power 4 2 7 = Inr 2"
  by code_simp

text \<open>
  C2 on the reference solution with \<open>p = 7\<close>, \<open>q = 3\<close>, \<open>g = 2\<close>, \<open>n = 2\<close>, \<open>f = 1\<close> and the
  draws \<open>s = 2\<close>, coefficient 1, evaluation points 1 and 1: both shares are \<open>(1, 0)\<close>, the
  message 3 is encrypted to \<open>(4, 6)\<close>, and \<open>recover\<close> returns 6 from the two partial
  decryptions.
\<close>

theorem recover_repeated_point:
  "sol10_KeyGen 7 3 2 2 1 example_draws = Inr (4, [(1, 0), (1, 0)])
   \<and> encrypt 7 3 2 4 3 example_draws = Inr (4, 6)
   \<and> decrypt 7 3 2 4 (1, 0) (4, 6) = Inr (1, 1)
   \<and> recover 7 3 2 [(1, 1), (1, 1)] (4, 6) = Inr 6"
  by code_simp

section \<open>The accumulator: negative slot indices\<close>

lemma py_pow_nonneg: "m \<noteq> 0 \<Longrightarrow> 0 \<le> e \<Longrightarrow> py_pow b e m = Inr (b ^ nat e mod m)"
  by (simp add: py_pow_def)

lemma upto_snoc_nat: "[0..int (Suc k) - 1] = [0..int k - 1] @ [int k]"
  using upto_rec2 [of 0 "int k"] by simp

lemma witness_loop_eq:
  assumes N: "N \<noteq> 0" and e: "0 \<le> e" and k: "k \<le> length w"
  shows "fold_err (\<lambda>j w. if j \<noteq> i then
                    bind_err (py_get w j) (\<lambda>wj.
                    bind_err (py_pow wj e N) (\<lambda>wj'.
                    py_set w j wj'))
                  else Inr w) [0..int k - 1] w
         = Inr (map (\<lambda>j. if j < k \<and> int j \<noteq> i then (w ! j) ^ nat e mod N else w ! j)
                  [0..<length w])"
  using k
proof (induction k)
  case 0
  show ?case by (simp add: map_nth)
next
  case (Suc k)
  let ?wk = "map (\<lambda>j. if j < k \<and> int j \<noteq> i then (w ! j) ^ nat e mod N else w ! j)
                  [0..<length w]"
  have kl: "k < length w" using Suc.prems by simp
  have len: "length ?wk = length w" by simp
  have wk: "?wk ! k = w ! k" using kl by simp
  have step: "(if int k \<noteq> i then
                    bind_err (py_get ?wk (int k)) (\<lambda>wj.
                    bind_err (py_pow wj e N) (\<lambda>wj'.
                    py_set ?wk (int k) wj'))
                  else Inr ?wk)
        = Inr (map (\<lambda>j. if j < Suc k \<and> int j \<noteq> i then (w ! j) ^ nat e mod N else w ! j)
                  [0..<length w])"
  proof (cases "int k = i")
    case True
    have "?wk = map (\<lambda>j. if j < Suc k \<and> int j \<noteq> i then (w ! j) ^ nat e mod N else w ! j)
                  [0..<length w]"
      using True by (auto simp: less_Suc_eq)
    with True show ?thesis by simp
  next
    case False
    have "?wk[k := (w ! k) ^ nat e mod N]
          = map (\<lambda>j. if j < Suc k \<and> int j \<noteq> i then (w ! j) ^ nat e mod N else w ! j)
                  [0..<length w]"
      using False kl by (intro nth_equalityI) (auto simp: nth_list_update less_Suc_eq)
    then show ?thesis
      using False kl N e by (simp add: py_pow_nonneg wk del: map_eq_conv)
  qed
  show ?case
    using Suc.IH kl step by (simp add: upto_snoc_nat fold_err_append del: of_nat_Suc)
qed

lemma upto_nat_length: "length w = nat n \<Longrightarrow> [0..n - 1] = [0..int (length w) - 1]"
  by (cases "0 \<le> n") simp_all

lemma witness_loop_all:
  assumes N: "N \<noteq> 0" and e: "0 \<le> e" and len: "length w = nat n"
  shows "fold_err (\<lambda>j w. if j \<noteq> i then
                    bind_err (py_get w j) (\<lambda>wj.
                    bind_err (py_pow wj e N) (\<lambda>wj'.
                    py_set w j wj'))
                  else Inr w) [0..n - 1] w
         = Inr (map (\<lambda>j. if int j \<noteq> i then (w ! j) ^ nat e mod N else w ! j) [0..<length w])"
  using witness_loop_eq [OF N e order_refl, where w=w and i=i] by (simp add: upto_nat_length [OF len])

lemma negative_acc_init:
  "Accumulator_init 7 3 1 None 0 0 2 negative_H = Inr negative_acc"
  by (simp add: Accumulator_init_def negative_acc_def negative_H_def randbelow_def
      py_get_def py_set_def py_index_def py_pow_def py_inverse_def upto.simps)

text \<open>
  C10, as stated: for every \<open>i\<close> with \<open>-n \<le> i < 0\<close> and \<open>v\<close> different from the value
  stored at slot \<open>n + i\<close>, \<open>update(i, v)\<close> raises no error. On the one-slot object built
  over \<open>p = 7\<close>, \<open>q = 3\<close>, the exponent \<open>H(-1, "")\<close> is 3, which has no inverse modulo
  \<open>phi = 12\<close>, and \<open>update(-1, "a")\<close> raises \<open>ValueError\<close>.
\<close>

theorem update_negative_index_counterexample:
  "- acc_n negative_acc \<le> - 1 \<and> (- 1 :: int) < 0
   \<and> acc_x negative_acc ! nat (acc_n negative_acc + (- 1)) \<noteq> ''a''
   \<and> update negative_acc (- 1) ''a'' = Inl ValueError"
  by (simp add: update_def negative_acc_def negative_H_def
      py_get_def py_index_def py_pow_def py_inverse_def upto.simps)

text \<open>
  C10, amended: on an object whose lists \<open>x\<close> and \<open>w\<close> have \<open>n\<close> entries and whose \<open>N\<close>
  is not 0, for every \<open>i\<close> with \<open>-n \<le> i < 0\<close> and \<open>v\<close> different from the value stored at
  slot \<open>n + i\<close>: when \<open>pow(H(i, x[n+i]), -1, phi)\<close> returns an inverse \<open>hi\<close> and the exponent
  \<open>hi * H(i, v)\<close> is not negative, \<open>update(i, v)\<close> raises no error, returns true, sets the
  stored value of slot \<open>n + i\<close> to \<open>v\<close>, and raises \<open>alpha\<close> and the witnesses of all \<open>n\<close>
  slots, slot \<open>n + i\<close>'s own included, to that exponent modulo \<open>N\<close>; \<open>proof(i, s)\<close> and
  \<open>is_member(i, s)\<close>, for a value \<open>s\<close> with \<open>H(i, s) \<ge> 0\<close>, read slot \<open>n + i\<close>.
\<close>

theorem update_negative_index:
  assumes lx: "length (acc_x acc) = nat (acc_n acc)"
    and lw: "length (acc_w acc) = nat (acc_n acc)"
    and i: "- acc_n acc \<le> i" "i < 0"
    and v: "acc_x acc ! nat (acc_n acc + i) \<noteq> v"
    and N: "acc_N acc \<noteq> 0"
    and hi: "py_pow (acc_H acc i (acc_x acc ! nat (acc_n acc + i))) (- 1) (acc_phi acc) = Inr hi"
    and e: "0 \<le> hi * acc_H acc i v"
    and s: "0 \<le> acc_H acc i s"
  shows "update acc i v
           = Inr (True, acc\<lparr>acc_alpha := acc_alpha acc ^ nat (hi * acc_H acc i v) mod acc_N acc,
                            acc_w := map (\<lambda>wj. wj ^ nat (hi * acc_H acc i v) mod acc_N acc) (acc_w acc),
                            acc_x := (acc_x acc)[nat (acc_n acc + i) := v]\<rparr>)
       \<and> proof_acc acc i s
           = Inr ((acc_w acc ! nat (acc_n acc + i)) ^ nat (acc_H acc i s) mod acc_N acc)
       \<and> is_member acc i s
           = Inr (acc_x acc ! nat (acc_n acc + i) = s
                  \<and> (acc_w acc ! nat (acc_n acc + i)) ^ nat (acc_H acc i s) mod acc_N acc
                      = acc_alpha acc)"
proof -
  have n: "0 \<le> acc_n acc" using i by simp
  have ix: "- int (length (acc_x acc)) \<le> i" and iw: "- int (length (acc_w acc)) \<le> i"
    using i n lx lw by simp_all
  have gx: "py_get (acc_x acc) i = Inr (acc_x acc ! nat (acc_n acc + i))"
    using py_get_neg [OF ix i(2)] lx n by simp
  have gw: "py_get (acc_w acc) i = Inr (acc_w acc ! nat (acc_n acc + i))"
    using py_get_neg [OF iw i(2)] lw n by simp
  have sx: "py_set (acc_x acc) i v = Inr ((acc_x acc)[nat (acc_n acc + i) := v])"
    using py_set_neg [OF ix i(2)] lx n by simp
  have nth_map: "map (\<lambda>j. (acc_w acc ! j) ^ nat (hi * acc_H acc i v) mod acc_N acc)
                  [0..<length (acc_w acc)]
                = map (\<lambda>wj. wj ^ nat (hi * acc_H acc i v) mod acc_N acc) (acc_w acc)"
    by (intro nth_equalityI) simp_all
  have "\<And>j::nat. int j \<noteq> i" using i(2) by simp
  then have loop: "fold_err (\<lambda>j w. if j \<noteq> i then
                    bind_err (py_get w j) (\<lambda>wj.
                    bind_err (py_pow wj (hi * acc_H acc i v) (acc_N acc)) (\<lambda>wj'.
                    py_set w j wj'))
                  else Inr w) [0..acc_n acc - 1] (acc_w acc)
         = Inr (map (\<lambda>wj. wj ^ nat (hi * acc_H acc i v) mod acc_N acc) (acc_w acc))"
    using witness_loop_all [OF N e lw, where i=i] by (simp add: nth_map)
  have u: "update acc i v
           = Inr (True, acc\<lparr>acc_alpha := acc_alpha acc ^ nat (hi * acc_H acc i v) mod acc_N acc,
                            acc_w := map (\<lambda>wj. wj ^ nat (hi * acc_H acc i v) mod acc_N acc) (acc_w acc),
                            acc_x := (acc_x acc)[nat (acc_n acc + i) := v]\<rparr>)"
    using v by (simp add: update_def Let_def gx hi py_pow_nonneg [OF N e] loop sx)
  have p: "proof_acc acc i s
           = Inr ((acc_w acc ! nat (acc_n acc + i)) ^ nat (acc_H acc i s) mod acc_N acc)"
    by (simp add: proof_acc_def gw py_pow_nonneg [OF N s])
  have m: "is_member acc i s
           = Inr (acc_x acc ! nat (acc_n acc + i) = s
                  \<and> (acc_w acc ! nat (acc_n acc + i)) ^ nat (acc_H acc i s) mod acc_N acc
                      = acc_alpha acc)"
    by (simp add: is_member_def gx p)
  from u p m show ?thesis by simp
qed

lemma example_acc_fields:
  "acc_x example_acc = [[], []]" "acc_w example_acc = [8, 8]" "acc_n example_acc = 2"
  "acc_N example_acc = 15" "acc_phi example_acc = 8" "acc_alpha example_acc = 2"
  "acc_H example_acc = example_H"
  by (simp_all add: example_acc_def)

lemma example_H_values: "example_H i [] = 3" "example_H i ''a'' = 5"
  by (simp_all add: example_H_def)

lemma py_pow_inverse_3_8: "py_pow 3 (- 1) 8 = Inr 3"
  by (simp add: py_pow_def py_inverse_def upto.simps)

theorem update_negative_index_witness:
  "length (acc_x example_acc) = nat (acc_n example_acc)
   \<and> length (acc_w example_acc) = nat (acc_n example_acc)
   \<and> - acc_n example_acc \<le> - 1 \<and> (- 1 :: int) < 0
   \<and> acc_x example_acc ! nat (acc_n example_acc + (- 1)) \<noteq> ''a''
   \<and> acc_N example_acc \<noteq> 0
   \<and> py_pow (acc_H example_acc (- 1) (acc_x example_acc ! nat (acc_n example_acc + (- 1)))) (- 1)
        (acc_phi example_acc) = Inr 3
   \<and> 0 \<le> 3 * acc_H example_acc (- 1) ''a''
   \<and> 0 \<le> acc_H example_acc (- 1) []
   \<and> update example_acc (- 1) ''a''
       = Inr (True, example_acc\<lparr>acc_alpha := 8, acc_w := [2, 2], acc_x := [[], ''a'']\<rparr>)
   \<and> proof_acc example_acc (- 1) [] = Inr 2
   \<and> is_member example_acc (- 1) [] = Inr True"
proof -
  have h: "length (acc_x example_acc) = nat (acc_n example_acc)"
    "length (acc_w example_acc) = nat (acc_n example_acc)"
    "- acc_n example_acc \<le> - 1" "(- 1 :: int) < 0"
    "acc_x example_acc ! nat (acc_n example_acc + (- 1)) \<noteq> ''a''"
    "acc_N example_acc \<noteq> 0"
    "py_pow (acc_H example_acc (- 1) (acc_x example_acc ! nat (acc_n example_acc + (- 1)))) (- 1)
        (acc_phi example_acc) = Inr 3"
    "0 \<le> 3 * acc_H example_acc (- 1) ''a''"
    "0 \<le> acc_H example_acc (- 1) []"
    by (simp_all add: example_acc_fields example_H_values py_pow_inverse_3_8)
  have t: "update example_acc (- 1) ''a''
       = Inr (True, example_acc\<lparr>acc_alpha := 8, acc_w := [2, 2], acc_x := [[], ''a'']\<rparr>)
   \<and> proof_acc example_acc (- 1) [] = Inr 2
   \<and> is_member example_acc (- 1) [] = Inr True"
    using update_negative_index [OF h]
    by (simp add: example_acc_fields example_H_values)
  from h t show ?thesis
    by blast
qed

section \<open>The shape of the share lists\<close>

lemma fold_err_collect:
  assumes "\<And>x acc. x \<in> set xs \<Longrightarrow> \<exists>v. step x acc = Inr (acc @ [(k x, v)]) \<and> P v"
  shows "\<exists>vs. fold_err step xs acc0 = Inr (acc0 @ zip (map k xs) vs)
              \<and> length vs = length xs \<and> (\<forall>v\<in>set vs. P v)"
  using assms
proof (induction xs arbitrary: acc0)
  case Nil
  show ?case by simp
next
  case (Cons x xs)
  from Cons.prems [of x acc0] obtain v where v: "step x acc0 = Inr (acc0 @ [(k x, v)])" "P v"
    by auto
  from Cons.IH [of "acc0 @ [(k x, v)]"] Cons.prems obtain vs where
    vs: "fold_err step xs (acc0 @ [(k x, v)]) = Inr ((acc0 @ [(k x, v)]) @ zip (map k xs) vs)"
      "length vs = length xs" "\<forall>v\<in>set vs. P v"
    by auto
  show ?case
  proof (intro exI conjI)
    show "fold_err step (x # xs) acc0 = Inr (acc0 @ zip (map k (x # xs)) (v # vs))"
      using v vs by simp
    show "length (v # vs) = length (x # xs)" using vs by simp
    show "\<forall>v\<in>set (v # vs). P v" using v vs by simp
  qed
qed

lemma randint_range [simp]: "a \<le> b \<Longrightarrow> randint a b d = Inr d"
  by (simp add: randint_def)

lemma fold_append_draws: "fold (\<lambda>i cs. cs @ [h i]) xs s = s @ map h xs"
  by (induction xs arbitrary: s) simp_all

lemma generateCoefficients_eq:
  assumes "0 \<le> q"
  shows "generateCoefficients x f q rnd = Inr (x # map (\<lambda>i. rnd (nat i)) [0..f - 1])"
proof -
  have "generateCoefficients x f q rnd
        = Inr (fold (\<lambda>i cs. cs @ [rnd (nat i)]) [0..f - 1] [x])"
    unfolding generateCoefficients_def using assms by (intro fold_err_pure) simp
  then show ?thesis by (simp add: fold_append_draws)
qed

lemma ex10_generateCoefficients_eq:
  assumes "0 < p"
  shows "ex10_generateCoefficients x f p rnd = Inr (x # map (\<lambda>i. rnd (nat i)) [0..f - 1])"
proof -
  have "ex10_generateCoefficients x f p rnd
        = Inr (fold (\<lambda>i cs. cs @ [rnd (nat i)]) [0..f - 1] [x])"
    unfolding ex10_generateCoefficients_def using assms by (intro fold_err_pure) simp
  then show ?thesis by (simp add: fold_append_draws)
qed

lemma polynomial_range:
  assumes q: "0 < q" and len: "f < int (length cs)"
  shows "\<exists>v. polynomial val cs f q = Inr v \<and> 0 \<le> v \<and> v < q"
  unfolding polynomial_def
proof (rule fold_err_invariant)
  show "0 \<le> (0::int) \<and> 0 < q" using q by simp
next
  fix i s
  assume i: "i \<in> set [0..f]"
  then have "0 \<le> i" "i < int (length cs)" using len by simp_all
  then have g: "py_get cs i = Inr (cs ! nat i)"
    by (simp add: py_get_def py_index_def)
  show "\<exists>v. bind_err (py_get cs i)
               (\<lambda>c. bind_err (power val i q) (\<lambda>pw. py_mod (s + c * pw) q)) = Inr v
            \<and> 0 \<le> v \<and> v < q"
    using q by (simp add: g power_eq)
qed

lemma share_loop_shape:
  assumes q: "0 < q" and len: "f < int (length cs)"
  shows "\<exists>shs. fold_err (\<lambda>i shares.
           bind_err (polynomial i cs f q) (\<lambda>polVal. Inr (shares @ [(i, polVal)])))
         [1..n] [] = Inr shs
     \<and> length shs = nat n \<and> map fst shs = [1..n] \<and> (\<forall>v\<in>snd ` set shs. 0 \<le> v \<and> v < q)"
proof -
  have "\<exists>vs. fold_err (\<lambda>i shares.
           bind_err (polynomial i cs f q) (\<lambda>polVal. Inr (shares @ [(i, polVal)])))
         [1..n] [] = Inr ([] @ zip (map (\<lambda>i. i) [1..n]) vs)
       \<and> length vs = length [1..n] \<and> (\<forall>v\<in>set vs. 0 \<le> v \<and> v < q)"
  proof (rule fold_err_collect)
    fix x :: int and acc :: "(int \<times> int) list"
    obtain v where "polynomial x cs f q = Inr v" "0 \<le> v \<and> v < q"
      using polynomial_range [OF q len] by blast
    then show "\<exists>v. bind_err (polynomial x cs f q) (\<lambda>polVal. Inr (acc @ [(x, polVal)]))
                 = Inr (acc @ [(x, v)]) \<and> 0 \<le> v \<and> v < q"
      by simp
  qed
  then obtain vs where vs: "fold_err (\<lambda>i shares.
           bind_err (polynomial i cs f q) (\<lambda>polVal. Inr (shares @ [(i, polVal)])))
         [1..n] [] = Inr (zip [1..n] vs)"
       "length vs = length [1..n]" "\<forall>v\<in>set vs. 0 \<le> v \<and> v < q"
    by auto
  have "snd ` set (zip [1..n] vs) \<subseteq> set vs"
    by (auto dest: set_zip_rightD)
  with vs show ?thesis
    by (intro exI [of _ "zip [1..n] vs"]) auto
qed

lemma share_shape:
  assumes q: "0 < q"
  shows "\<exists>shs. share x f n q rnd = Inr shs
     \<and> length shs = nat n \<and> map fst shs = [1..n] \<and> (\<forall>v\<in>snd ` set shs. 0 \<le> v \<and> v < q)"
proof -
  have "f < int (length (x # map (\<lambda>i. rnd (nat i)) [0..f - 1]))"
    by simp
  from share_loop_shape [OF q this] show ?thesis
    using q by (simp add: share_def generateCoefficients_eq)
qed

lemma ex10_share_shape:
  assumes p: "0 < p"
  shows "\<exists>shs. ex10_share x f n p rnd = Inr shs
     \<and> length shs = nat n \<and> map fst shs = [1..n] \<and> (\<forall>v\<in>snd ` set shs. 0 \<le> v \<and> v < p)"
proof -
  have "f < int (length (x # map (\<lambda>i. rnd (nat i)) [0..f - 1]))"
    by simp
  from share_loop_shape [OF p this] show ?thesis
    using p by (simp add: ex10_share_def ex10_generateCoefficients_eq)
qed

lemma sol10_generateCoefficients_eq:
  assumes "0 < q"
  shows "sol10_generateCoefficients x f q rnd
         = Inr (map (\<lambda>i. rnd (nat (i - 1))) [1..f] @ [x])"
proof -
  have "fold_err (\<lambda>i coefficients.
            bind_err (randint 0 (q - 1) (rnd (nat (i - 1)))) (\<lambda>c. Inr (coefficients @ [c])))
          [1..f] []
        = Inr (fold (\<lambda>i cs. cs @ [rnd (nat (i - 1))]) [1..f] [])"
    using assms by (intro fold_err_pure) simp
  then show ?thesis
    by (simp add: sol10_generateCoefficients_def fold_append_draws)
qed

lemma sol10_polynomial_range:
  assumes q: "0 < q"
  shows "\<exists>v. sol10_polynomial val cs f q = Inr v \<and> 0 \<le> v \<and> v < q"
  unfolding sol10_polynomial_def
proof (rule fold_err_invariant)
  show "0 \<le> (0::int) \<and> 0 < q" using q by simp
next
  fix ic :: "nat \<times> int" and s :: int
  obtain i c where ic: "ic = (i, c)" by (cases ic)
  show "\<exists>v. (case ic of (i, coeff) \<Rightarrow> \<lambda>total.
               bind_err (power val (f - int i) q) (\<lambda>pw. py_mod (total + coeff * pw) q)) s = Inr v
            \<and> 0 \<le> v \<and> v < q"
    using q by (simp add: ic power_eq)
qed

lemma sol10_share_shape:
  assumes q: "0 < q"
  shows "\<exists>shs. sol10_share x f n q rnd = Inr shs
     \<and> length shs = nat n \<and> map fst shs = map (\<lambda>i. rnd (nat f + nat i)) [0..n - 1]
     \<and> (\<forall>v\<in>snd ` set shs. 0 \<le> v \<and> v < q)"
proof -
  let ?cs = "map (\<lambda>i. rnd (nat (i - 1))) [1..f] @ [x]"
  let ?step = "\<lambda>i shares.
           bind_err (randint 0 (q - 1) (rnd (nat f + nat i))) (\<lambda>val.
           bind_err (sol10_polynomial val ?cs f q) (\<lambda>share.
           Inr (shares @ [(val, share)])))"
  have "\<exists>vs. fold_err ?step [0..n - 1] []
         = Inr ([] @ zip (map (\<lambda>i. rnd (nat f + nat i)) [0..n - 1]) vs)
       \<and> length vs = length [0..n - 1] \<and> (\<forall>v\<in>set vs. 0 \<le> v \<and> v < q)"
  proof (rule fold_err_collect)
    fix i :: int and acc :: "(int \<times> int) list"
    obtain v where "sol10_polynomial (rnd (nat f + nat i)) ?cs f q = Inr v" "0 \<le> v \<and> v < q"
      using sol10_polynomial_range [OF q] by blast
    then show "\<exists>v. ?step i acc = Inr (acc @ [(rnd (nat f + nat i), v)]) \<and> 0 \<le> v \<and> v < q"
      using q by simp
  qed
  then obtain vs where vs: "fold_err ?step [0..n - 1] []
         = Inr (zip (map (\<lambda>i. rnd (nat f + nat i)) [0..n - 1]) vs)"
       "length vs = length [0..n - 1]" "\<forall>v\<in>set vs. 0 \<le> v \<and> v < q"
    by auto
  have "snd ` set (zip (map (\<lambda>i. rnd (nat f + nat i)) [0..n - 1]) vs) \<subseteq> set vs"
    by (auto dest: set_zip_rightD)
  with vs show ?thesis
    using q
    by (intro exI [of _ "zip (map (\<lambda>i. rnd (nat f + nat i)) [0..n - 1]) vs"])
      (auto simp: sol10_share_def sol10_generateCoefficients_eq)
qed

lemma sol10_KeyGen_shape:
  assumes q: "3 \<le> q" and p: "0 < p"
  shows "\<exists>pk shs. sol10_KeyGen p q g n f rnd = Inr (pk, shs)
     \<and> length shs = nat n \<and> map fst shs = map (\<lambda>i. rnd (Suc (nat f + nat i))) [0..n - 1]
     \<and> (\<forall>v\<in>snd ` set shs. 0 \<le> v \<and> v < q)"
proof -
  have q0: "0 < q" using q by simp
  from sol10_share_shape [OF q0, of "rnd 0" f n "\<lambda>k. rnd (Suc k)"] obtain shs where
    "sol10_share (rnd 0) f n q (\<lambda>k. rnd (Suc k)) = Inr shs"
    "length shs = nat n" "map fst shs = map (\<lambda>i. rnd (Suc (nat f + nat i))) [0..n - 1]"
    "\<forall>v\<in>snd ` set shs. 0 \<le> v \<and> v < q"
    by auto
  then show ?thesis
    using q p by (simp add: sol10_KeyGen_def power_eq)
qed

lemma ex10_KeyGen_shape:
  assumes q: "3 \<le> q" and p: "0 < p"
  shows "\<exists>x y xi. ex10_KeyGen g q p f n rnd = Inr (x, y, xi)
     \<and> length xi = nat n \<and> map fst xi = [1..n]"
proof -
  from ex10_share_shape [OF p, of "rnd 0" f n "\<lambda>k. rnd (Suc k)"] obtain shs where
    "ex10_share (rnd 0) f n p (\<lambda>k. rnd (Suc k)) = Inr shs"
    "length shs = nat n" "map fst shs = [1..n]"
    by auto
  then show ?thesis
    using q p by (simp add: ex10_KeyGen_def power_eq)
qed

text \<open>
  C7, as stated: every share-producing operation returns exactly \<open>n\<close> shares whose indices
  are the pairwise distinct nonzero integers \<open>1..n\<close> and whose values lie in \<open>[0, q)\<close>, \<open>q\<close>
  the subgroup order. \<open>share\<close> of the reference solution returns two shares of index 1 on
  the draws 2, 1, 1; \<open>KeyGen\<close> of the submitted script returns the values 3 and 4 for
  \<open>q = 3\<close>.
\<close>

theorem share_shapes_counterexample:
  "sol10_share 2 1 2 3 example_draws = Inr [(1, 1), (1, 1)]
   \<and> ex10_KeyGen 2 3 7 1 2 example_draws = Inr (2, 4, [(1, 3), (2, 4)])"
  by code_simp

text \<open>
  C7, amended: for a modulus \<open>q \<ge> 3\<close> and \<open>p > 0\<close>, every share-producing operation returns
  exactly \<open>n\<close> shares. \<open>share\<close> of Exercise09 and of the submitted Exercise10 script return
  the indices \<open>1..n\<close> with values in \<open>[0, q)\<close> for the modulus \<open>q\<close> they are given, and
  \<open>KeyGen\<close> of the submitted script returns shares of indices \<open>1..n\<close>. \<open>share\<close> and \<open>KeyGen\<close>
  of the reference solution return, as indices, the \<open>n\<close> evaluation points that
  \<open>random.randint(0, q-1)\<close> drew, in the order of the draws, with values in \<open>[0, q)\<close>.
\<close>

theorem share_shapes:
  assumes "3 \<le> q" and "0 < p"
  shows "(\<exists>shs. share x f n q rnd = Inr shs
            \<and> length shs = nat n \<and> map fst shs = [1..n]
            \<and> (\<forall>v\<in>snd ` set shs. 0 \<le> v \<and> v < q))
       \<and> (\<exists>shs. ex10_share x f n q rnd = Inr shs
            \<and> length shs = nat n \<and> map fst shs = [1..n]
            \<and> (\<forall>v\<in>snd ` set shs. 0 \<le> v \<and> v < q))
       \<and> (\<exists>x y xi. ex10_KeyGen g q p f n rnd = Inr (x, y, xi)
            \<and> length xi = nat n \<and> map fst xi = [1..n])
       \<and> (\<exists>shs. sol10_share x f n q rnd = Inr shs
            \<and> length shs = nat n \<and> map fst shs = map (\<lambda>i. rnd (nat f + nat i)) [0..n - 1]
            \<and> (\<forall>v\<in>snd ` set shs. 0 \<le> v \<and> v < q))
       \<and> (\<exists>pk shs. sol10_KeyGen p q g n f rnd = Inr (pk, shs)
            \<and> length shs = nat n \<and> map fst shs = map (\<lambda>i. rnd (Suc (nat f + nat i))) [0..n - 1]
            \<and> (\<forall>v\<in>snd ` set shs. 0 \<le> v \<and> v < q))"
proof -
  have q0: "0 < q" using assms(1) by simp
  show ?thesis
    by (intro conjI share_shape [OF q0] ex10_share_shape [OF q0] ex10_KeyGen_shape [OF assms]
        sol10_share_shape [OF q0] sol10_KeyGen_shape [OF assms])
qed


theorem share_shapes_witness:
  "(3::int) \<le> 3 \<and> (0::int) < 7
   \<and> ((\<exists>shs. share 2 1 2 3 example_draws = Inr shs
            \<and> length shs = nat 2 \<and> map fst shs = [1..2]
            \<and> (\<forall>v\<in>snd ` set shs. 0 \<le> v \<and> v < 3))
       \<and> (\<exists>shs. ex10_share 2 1 2 3 example_draws = Inr shs
            \<and> length shs = nat 2 \<and> map fst shs = [1..2]
            \<and> (\<forall>v\<in>snd ` set shs. 0 \<le> v \<and> v < 3))
       \<and> (\<exists>x y xi. ex10_KeyGen 2 3 7 1 2 example_draws = Inr (x, y, xi)
            \<and> length xi = nat 2 \<and> map fst xi = [1..2])
       \<and> (\<exists>shs. sol10_share 2 1 2 3 example_draws = Inr shs
            \<and> length shs = nat 2
            \<and> map fst shs = map (\<lambda>i. example_draws (nat 1 + nat i)) [0..2 - 1]
            \<and> (\<forall>v\<in>snd ` set shs. 0 \<le> v \<and> v < 3))
       \<and> (\<exists>pk shs. sol10_KeyGen 7 3 2 2 1 example_draws = Inr (pk, shs)
            \<and> length shs = nat 2
            \<and> map fst shs = map (\<lambda>i. example_draws (Suc (nat 1 + nat i))) [0..2 - 1]
            \<and> (\<forall>v\<in>snd ` set shs. 0 \<le> v \<and> v < 3)))"
proof -
  have h: "(3::int) \<le> 3" "(0::int) < 7" by simp_all
  show ?thesis
    by (rule conjI [OF h(1) conjI [OF h(2)
          share_shapes [OF h, where x = 2 and f = 1 and n = 2 and rnd = example_draws and g = 2]]])
qed

section \<open>Fermat's little theorem and exponents modulo a product of two primes\<close>

lemma is_prime_5: "is_prime 5"
  by code_simp

lemma is_prime_7: "is_prime 7"
  by code_simp

lemma is_prime_divisors:
  assumes p: "is_prime p" and d: "d dvd p"
  shows "\<bar>d\<bar> = 1 \<or> \<bar>d\<bar> = p"
proof -
  have p1: "1 < p" using p by (simp add: is_prime_def)
  have ad: "\<bar>d\<bar> dvd p" using d by simp
  then have le: "\<bar>d\<bar> \<le> p" using p1 by (intro zdvd_imp_le) simp_all
  have "d \<noteq> 0" using d p1 by auto
  then have pos: "1 \<le> \<bar>d\<bar>" by simp
  show ?thesis
  proof (rule ccontr)
    assume "\<not> ?thesis"
    with le pos have "\<bar>d\<bar> \<in> set [2..p - 1]" by simp
    moreover from p have "\<forall>d\<in>set [2..p - 1]. \<not> d dvd p" by (simp add: is_prime_def)
    ultimately show False using ad by blast
  qed
qed

lemma is_prime_coprime:
  assumes p: "is_prime p" and nd: "\<not> p dvd a"
  shows "coprime p a"
proof (rule coprimeI)
  fix c assume c: "c dvd p" "c dvd a"
  from is_prime_divisors [OF p c(1)] show "is_unit c"
  proof
    assume "\<bar>c\<bar> = 1" then show ?thesis by simp
  next
    assume "\<bar>c\<bar> = p"
    then have "p dvd c" by (metis abs_dvd_iff dvd_refl)
    with c(2) nd show ?thesis using dvd_trans by blast
  qed
qed

lemma is_prime_dvd_mult:
  assumes "is_prime p" and "p dvd a * b"
  shows "p dvd a \<or> p dvd b"
  using assms is_prime_coprime coprime_dvd_mult_right_iff by blast

lemma is_prime_dvd_prod:
  assumes p: "is_prime p" and fin: "finite A" and d: "p dvd (\<Prod>x\<in>A. f x)"
  shows "\<exists>x\<in>A. p dvd f x"
  using fin d
proof (induction A rule: finite_induct)
  case empty
  then have "p dvd 1" by simp
  with p show ?case by (simp add: is_prime_def)
next
  case (insert x A)
  then have "p dvd f x * (\<Prod>x\<in>A. f x)" by simp
  with is_prime_dvd_mult [OF p] insert.IH show ?case by auto
qed

lemma is_prime_dvd_binomial:
  assumes p: "is_prime p" and k: "0 < k" "int k < p"
  shows "p dvd int (nat p choose k)"
proof -
  have "k * (nat p choose k) = nat p * ((nat p - 1) choose (k - 1))"
    using k(1) by (rule times_binomial_minus1_eq)
  then have "int k * int (nat p choose k) = int (nat p) * int ((nat p - 1) choose (k - 1))"
    by (metis of_nat_mult)
  moreover have "int (nat p) = p" using p by (simp add: is_prime_def)
  ultimately have "p dvd int k * int (nat p choose k)" by simp
  moreover have "\<not> p dvd int k"
    using k by (simp add: zdvd_not_zless)
  ultimately show ?thesis
    using is_prime_dvd_mult [OF p] by blast
qed

lemma freshman_step:
  assumes p: "is_prime p"
  shows "p dvd (x + 1) ^ nat p - (x ^ nat p + 1)"
proof -
  let ?P = "nat p"
  have P: "0 < ?P" using p by (simp add: is_prime_def)
  let ?f = "\<lambda>k. int (?P choose k) * x ^ k"
  have "(x + 1) ^ ?P = (\<Sum>k\<le>?P. ?f k)"
    using binomial_ring [of x 1 ?P] by simp
  also have "\<dots> = ?f ?P + (\<Sum>k\<in>{..?P} - {?P}. ?f k)"
    by (rule sum.remove) simp_all
  also have "(\<Sum>k\<in>{..?P} - {?P}. ?f k) = ?f 0 + (\<Sum>k\<in>{..?P} - {?P} - {0}. ?f k)"
    using P by (intro sum.remove) simp_all
  finally have "(x + 1) ^ ?P - (x ^ ?P + 1) = (\<Sum>k\<in>{..?P} - {?P} - {0}. ?f k)"
    by simp
  moreover have "p dvd (\<Sum>k\<in>{..?P} - {?P} - {0}. ?f k)"
  proof (rule dvd_sum)
    fix k assume "k \<in> {..?P} - {?P} - {0}"
    then have "0 < k" "int k < p" by auto
    then have "p dvd int (?P choose k)" by (rule is_prime_dvd_binomial [OF p])
    then show "p dvd ?f k" by simp
  qed
  ultimately show ?thesis by simp
qed

lemma fermat_nat:
  assumes p: "is_prime p"
  shows "p dvd (int n) ^ nat p - int n"
proof (induction n)
  case 0
  have "0 < nat p" using p by (simp add: is_prime_def)
  then show ?case by (simp add: power_0_left)
next
  case (Suc n)
  have eq: "int (Suc n) ^ nat p - int (Suc n)
        = ((int n + 1) ^ nat p - (int n ^ nat p + 1)) + (int n ^ nat p - int n)"
    by (simp add: add.commute)
  have "p dvd ((int n + 1) ^ nat p - (int n ^ nat p + 1)) + (int n ^ nat p - int n)"
    using freshman_step [OF p, of "int n"] Suc.IH by (rule dvd_add)
  then show ?case by (simp only: eq)
qed

lemma fermat_power:
  assumes p: "is_prime p"
  shows "a ^ nat p mod p = a mod p"
proof -
  have p0: "0 < p" using p by (simp add: is_prime_def)
  define n where "n = nat (a mod p)"
  have n: "int n = a mod p" using p0 by (simp add: n_def)
  have "p dvd (a mod p) ^ nat p - a mod p"
    using fermat_nat [OF p, of n] by (simp add: n)
  then have "(a mod p) ^ nat p mod p = (a mod p) mod p"
    using mod_eq_dvd_iff by blast
  then show ?thesis by (simp add: power_mod)
qed

lemma fermat_little:
  assumes p: "is_prime p" and nd: "\<not> p dvd a"
  shows "a ^ (nat p - 1) mod p = 1"
proof -
  have p1: "1 < p" using p by (simp add: is_prime_def)
  have "nat p = Suc (nat p - 1)" using p1 by simp
  then have "a ^ nat p = a * a ^ (nat p - 1)" by (metis power_Suc)
  then have "p dvd a * a ^ (nat p - 1) - a"
    using fermat_power [OF p, of a] by (simp add: mod_eq_dvd_iff)
  then have "p dvd a * (a ^ (nat p - 1) - 1)"
    by (simp add: algebra_simps)
  then have "p dvd a ^ (nat p - 1) - 1"
    using is_prime_dvd_mult [OF p] nd by blast
  then have "a ^ (nat p - 1) mod p = 1 mod p"
    by (simp add: mod_eq_dvd_iff)
  then show ?thesis using p1 by simp
qed

lemma fermat_inverse:
  assumes p: "is_prime p" and nd: "\<not> p dvd a"
  shows "(a * a ^ nat (p - 2)) mod p = 1"
proof -
  have p1: "1 < p" using p by (simp add: is_prime_def)
  have "nat p - 1 = Suc (nat (p - 2))" using p1 by simp
  then have "a ^ (nat p - 1) = a * a ^ nat (p - 2)" by (metis power_Suc)
  with fermat_little [OF p nd] show ?thesis by simp
qed

lemma is_prime_pos: "is_prime p \<Longrightarrow> 1 < p"
  by (simp add: is_prime_def)

lemma distinct_primes_coprime:
  assumes p: "is_prime p" and q: "is_prime q" and ne: "p \<noteq> q"
  shows "coprime p q"
proof (rule is_prime_coprime [OF p])
  show "\<not> p dvd q"
  proof
    assume "p dvd q"
    from is_prime_divisors [OF q this] is_prime_pos [OF p] ne show False by simp
  qed
qed

lemma fermat_multiple:
  assumes p: "is_prime p"
  shows "p dvd a ^ Suc (k * (nat p - 1)) - a"
proof (cases "p dvd a")
  case True
  then show ?thesis by simp
next
  case False
  have "a ^ (k * (nat p - 1)) = (a ^ (nat p - 1)) ^ k"
    by (subst mult.commute) (rule power_mult)
  then have "a ^ (k * (nat p - 1)) mod p = ((a ^ (nat p - 1)) mod p) ^ k mod p"
    by (simp only: power_mod)
  also have "\<dots> = 1 mod p"
    using fermat_little [OF p False] by simp
  finally have "p dvd a ^ (k * (nat p - 1)) - 1"
    using mod_eq_dvd_iff by blast
  then have "p dvd a * (a ^ (k * (nat p - 1)) - 1)"
    by simp
  then show ?thesis by (simp add: algebra_simps)
qed

lemma rsa_exponent:
  assumes p: "is_prime p" and q: "is_prime q" and ne: "p \<noteq> q"
    and m: "0 \<le> m" "m mod ((p - 1) * (q - 1)) = 1"
  shows "a ^ nat m mod (p * q) = a mod (p * q)"
proof -
  have p1: "1 < p" and q1: "1 < q"
    using p q by (simp_all add: is_prime_pos)
  let ?phi = "(p - 1) * (q - 1)"
  have phi: "0 < ?phi" using p1 q1 by simp
  define k where "k = m div ?phi"
  have k0: "0 \<le> k" using m(1) phi by (simp add: k_def pos_imp_zdiv_nonneg_iff)
  have mk: "m = 1 + k * ?phi"
    using m(2) div_mult_mod_eq [of m ?phi] by (simp add: k_def)
  have np: "nat m = Suc ((nat k * nat (q - 1)) * (nat p - 1))"
  proof -
    have "int (Suc ((nat k * nat (q - 1)) * (nat p - 1))) = 1 + k * ((q - 1) * (p - 1))"
      using k0 p1 q1 by (simp add: of_nat_diff)
    also have "\<dots> = m" using mk by (simp add: mult.commute)
    finally show ?thesis using m(1) by linarith
  qed
  have nq: "nat m = Suc ((nat k * nat (p - 1)) * (nat q - 1))"
  proof -
    have "int (Suc ((nat k * nat (p - 1)) * (nat q - 1))) = 1 + k * ((p - 1) * (q - 1))"
      using k0 p1 q1 by (simp add: of_nat_diff)
    also have "\<dots> = m" using mk by simp
    finally show ?thesis using m(1) by linarith
  qed
  have "p dvd a ^ nat m - a"
    unfolding np by (rule fermat_multiple [OF p])
  moreover have "q dvd a ^ nat m - a"
    unfolding nq by (rule fermat_multiple [OF q])
  ultimately have "p * q dvd a ^ nat m - a"
    using distinct_primes_coprime [OF p q ne] by (rule divides_mult)
  then show ?thesis
    using mod_eq_dvd_iff by blast
qed

section \<open>The accumulator: the membership invariant\<close>

lemma py_inverse_coprime:
  assumes m: "0 < m" and c: "coprime b m"
  shows "\<exists>y. py_inverse b m = Inr y \<and> 0 \<le> y \<and> y < m \<and> (b * y) mod m = 1 mod m"
proof -
  obtain u v where "u * b + v * m = gcd b m"
    using bezout_int by blast
  with c have uv: "b * u = 1 - v * m"
    by (simp add: algebra_simps)
  have "(b * (u mod m)) mod m = (b * u) mod m"
    by (simp add: mod_mult_right_eq)
  also have "\<dots> = 1 mod m"
    unfolding uv by (metis mod_mult_self4 mult.commute diff_conv_add_uminus mult_minus_left
        add.commute mod_mult_self2 mult_minus_right)
  finally have ex: "\<exists>y. y \<in> set [0..m - 1] \<and> (b * y) mod m = 1 mod m"
    using m by (intro exI [of _ "u mod m"]) simp
  then obtain y where y: "List.find (\<lambda>y. (b * y) mod m = 1 mod m) [0..m - 1] = Some y"
    by (cases "List.find (\<lambda>y. (b * y) mod m = 1 mod m) [0..m - 1]") (auto simp: find_None_iff)
  then have "y \<in> set [0..m - 1]" "(b * y) mod m = 1 mod m"
    by (auto simp: find_Some_iff)
  with y m show ?thesis
    by (simp add: py_inverse_def)
qed

lemma py_pow_inverse:
  assumes m: "0 < m" and c: "coprime b m"
  shows "\<exists>y. py_pow b (- 1) m = Inr y \<and> 0 \<le> y \<and> y < m \<and> (b * y) mod m = 1 mod m"
proof -
  from py_inverse_coprime [OF m c] obtain y where
    y: "py_inverse b m = Inr y" "0 \<le> y" "y < m" "(b * y) mod m = 1 mod m"
    by blast
  then have "py_pow b (- 1) m = Inr y"
    using m by (simp add: py_pow_def)
  with y show ?thesis by blast
qed

lemma index_loop:
  assumes step: "\<And>j w. j < k \<Longrightarrow> length w = length w0
                  \<Longrightarrow> \<exists>v. step (int j) w = Inr (w[j := v]) \<and> Q j v"
    and k: "k \<le> length w0"
  shows "\<exists>w'. fold_err step [0..int k - 1] w0 = Inr w' \<and> length w' = length w0
              \<and> (\<forall>j<k. Q j (w' ! j))"
  using assms
proof (induction k)
  case 0
  show ?case by simp
next
  case (Suc k)
  from Suc.IH [OF Suc.prems(1)] Suc.prems(2) obtain wk where
    wk: "fold_err step [0..int k - 1] w0 = Inr wk" "length wk = length w0"
      "\<forall>j<k. Q j (wk ! j)"
    by auto
  from Suc.prems(1) [of k wk] wk(2) obtain v where
    v: "step (int k) wk = Inr (wk[k := v])" "Q k v"
    by auto
  have "\<forall>j<Suc k. Q j (wk[k := v] ! j)"
    using wk(2,3) v(2) Suc.prems(2) by (auto simp: less_Suc_eq nth_list_update)
  then show ?case
    using wk v by (simp add: upto_snoc_nat fold_err_append del: of_nat_Suc)
qed

lemma phi_gt_1:
  assumes p: "is_prime p" and q: "is_prime q" and ne: "p \<noteq> q"
  shows "1 < (p - 1) * (q - 1)"
proof -
  have "1 < p" "1 < q" using p q by (simp_all add: is_prime_pos)
  with ne have "(2 \<le> p - 1 \<and> 1 \<le> q - 1) \<or> (1 \<le> p - 1 \<and> 2 \<le> q - 1)"
    by auto
  then show ?thesis
  proof
    assume "2 \<le> p - 1 \<and> 1 \<le> q - 1"
    then have "2 * 1 \<le> (p - 1) * (q - 1)" by (intro mult_mono) simp_all
    then show ?thesis by simp
  next
    assume "1 \<le> p - 1 \<and> 2 \<le> q - 1"
    then have "1 * 2 \<le> (p - 1) * (q - 1)" by (intro mult_mono) simp_all
    then show ?thesis by simp
  qed
qed

text \<open>Raising to an exponent and then to its inverse modulo \<open>phi\<close> gives the base back.\<close>

lemma root_power:
  assumes p: "is_prime p" and q: "is_prime q" and ne: "p \<noteq> q"
    and e: "0 \<le> e" and d: "0 \<le> d" and ed: "(e * d) mod ((p - 1) * (q - 1)) = 1 mod ((p - 1) * (q - 1))"
  shows "(a ^ nat e) ^ nat d mod (p * q) = a mod (p * q)"
proof -
  have "(e * d) mod ((p - 1) * (q - 1)) = 1"
    using ed phi_gt_1 [OF p q ne] by simp
  moreover have "0 \<le> e * d" using e d by simp
  ultimately have "a ^ nat (e * d) mod (p * q) = a mod (p * q)"
    by (intro rsa_exponent [OF p q ne])
  moreover have "nat (e * d) = nat e * nat d"
    using e by (simp add: nat_mult_distrib)
  ultimately show ?thesis by (simp add: power_mult)
qed

lemma Accumulator_init_inv:
  assumes p: "is_prime p" and q: "is_prime q" and ne: "p \<noteq> q"
    and H: "\<And>i s. 0 < H i s \<and> coprime (H i s) ((p - 1) * (q - 1))"
  shows "\<exists>acc. Accumulator_init p q n seed security now r H = Inr acc \<and> acc_inv acc
           \<and> acc_N acc = p * q \<and> acc_phi acc = (p - 1) * (q - 1) \<and> acc_H acc = H
           \<and> acc_n acc = n"
proof -
  let ?N = "p * q" and ?phi = "(p - 1) * (q - 1)"
  let ?x = "replicate (nat n) ([] :: string)" and ?w = "replicate (nat n) (0 :: int)"
  have p1: "1 < p" and q1: "1 < q" using p q by (simp_all add: is_prime_pos)
  have N: "0 < ?N" using p1 q1 by simp
  have phi: "0 < ?phi" using p1 q1 by simp
  have getx: "py_get ?x i = Inr []" if "i \<in> set [0..n - 1]" for i
    using that by (simp add: py_get_def py_index_def)
  have "\<exists>prod. fold_err (\<lambda>i prod.
               bind_err (py_get ?x i) (\<lambda>xi.
               bind_err (py_pow (H i xi) (- 1) ?phi) (\<lambda>inv.
               bind_err (py_mod inv ?N) (\<lambda>t.
               Inr (prod * t)))))
             [0..n - 1] 1 = Inr prod \<and> 0 \<le> prod"
  proof (rule fold_err_invariant)
    show "(0::int) \<le> 1" by simp
  next
    fix i s assume i: "i \<in> set [0..n - 1]" and s: "(0::int) \<le> s"
    obtain y where y: "py_pow (H i []) (- 1) ?phi = Inr y" "0 \<le> y"
      using py_pow_inverse [OF phi, of "H i []"] H by blast
    show "\<exists>v. bind_err (py_get ?x i) (\<lambda>xi.
               bind_err (py_pow (H i xi) (- 1) ?phi) (\<lambda>inv.
               bind_err (py_mod inv ?N) (\<lambda>t.
               Inr (s * t)))) = Inr v \<and> 0 \<le> v"
    proof -
      have "py_mod y ?N = Inr (y mod ?N)" using p1 q1 by (simp add: py_mod_def)
      moreover have "0 \<le> y mod ?N" using N by (rule pos_mod_sign)
      ultimately show ?thesis using s y(1) by (simp add: getx [OF i])
    qed
  qed
  then obtain prod where prod: "fold_err (\<lambda>i prod.
               bind_err (py_get ?x i) (\<lambda>xi.
               bind_err (py_pow (H i xi) (- 1) ?phi) (\<lambda>inv.
               bind_err (py_mod inv ?N) (\<lambda>t.
               Inr (prod * t)))))
             [0..n - 1] 1 = Inr prod" "0 \<le> prod"
    by blast
  define alpha where "alpha = r ^ nat prod mod ?N"
  have alpha: "py_pow r prod ?N = Inr alpha"
    using p1 q1 prod(2) by (simp add: py_pow_nonneg alpha_def)
  have arange: "0 \<le> alpha" "alpha < ?N"
    using N by (simp_all add: alpha_def)
  let ?step = "\<lambda>i w.
               bind_err (py_get ?x i) (\<lambda>xi.
               bind_err (py_pow (H i xi) (- 1) ?phi) (\<lambda>e.
               bind_err (py_pow alpha e ?N) (\<lambda>wi.
               py_set w i wi)))"
  have "\<exists>w'. fold_err ?step [0..int (nat n) - 1] ?w = Inr w' \<and> length w' = length ?w
           \<and> (\<forall>j<nat n. (w' ! j) ^ nat (H (int j) []) mod ?N = alpha)"
  proof (rule index_loop)
    show "nat n \<le> length ?w" by simp
  next
    fix j and w :: "int list"
    assume j: "j < nat n" and lw: "length w = length ?w"
    obtain y where y: "py_pow (H (int j) []) (- 1) ?phi = Inr y" "0 \<le> y"
      "(H (int j) [] * y) mod ?phi = 1 mod ?phi"
      using py_pow_inverse [OF phi, of "H (int j) []"] H by blast
    have "(alpha ^ nat y) ^ nat (H (int j) []) mod ?N = alpha mod ?N"
    proof (rule root_power [OF p q ne y(2)])
      show "0 \<le> H (int j) []" using H [of "int j" "[]"] by simp
      show "(y * H (int j) []) mod ?phi = 1 mod ?phi"
        using y(3) by (simp add: mult.commute)
    qed
    then have Q: "(alpha ^ nat y mod ?N) ^ nat (H (int j) []) mod ?N = alpha"
      using arange by (simp add: power_mod)
    have "int j \<in> set [0..n - 1]" using j by simp
    then have "?step (int j) w = Inr (w[j := alpha ^ nat y mod ?N])"
      using j lw p1 q1 y(1,2) by (simp add: getx py_pow_nonneg)
    with Q show "\<exists>v. ?step (int j) w = Inr (w[j := v])
                   \<and> v ^ nat (H (int j) []) mod ?N = alpha"
      by blast
  qed
  moreover have "[0..int (nat n) - 1] = [0..n - 1]"
    by (cases "0 \<le> n") simp_all
  ultimately obtain w' where w': "fold_err ?step [0..n - 1] ?w = Inr w'"
    "length w' = nat n" "\<forall>j<nat n. (w' ! j) ^ nat (H (int j) []) mod ?N = alpha"
    by auto
  let ?acc = "\<lparr> acc_p = p, acc_q = q, acc_N = ?N, acc_phi = ?phi,
              acc_seed = (case seed of None \<Rightarrow> now | Some s \<Rightarrow> s), acc_n = n,
              acc_x = ?x, acc_w = w', acc_security = security, acc_r = r, acc_H = H,
              acc_alpha = alpha \<rparr>"
  have "Accumulator_init p q n seed security now r H = Inr ?acc"
    using N by (simp add: Accumulator_init_def Let_def randbelow_def prod(1) alpha w'(1))
  moreover have "acc_inv ?acc"
    using w'(2,3) arange by (simp add: acc_inv_def)
  ultimately show ?thesis by simp
qed

lemma power_power_mod_swap:
  "((a::int) ^ e mod N) ^ h mod N = (a ^ h mod N) ^ e mod N"
proof -
  have "(a ^ e mod N) ^ h mod N = (a ^ e) ^ h mod N" by (simp add: power_mod)
  also have "\<dots> = (a ^ h) ^ e mod N" by (simp add: power_mult [symmetric] mult.commute)
  also have "\<dots> = (a ^ h mod N) ^ e mod N" by (simp add: power_mod)
  finally show ?thesis .
qed

lemma update_preserves_inv:
  assumes p: "is_prime p" and q: "is_prime q" and ne: "p \<noteq> q"
    and H: "\<And>i s. 0 < acc_H acc i s \<and> coprime (acc_H acc i s) ((p - 1) * (q - 1))"
    and N: "acc_N acc = p * q" and phi: "acc_phi acc = (p - 1) * (q - 1)"
    and inv: "acc_inv acc"
    and i: "0 \<le> i" "i < acc_n acc"
  shows "\<exists>changed acc'. update acc i v = Inr (changed, acc') \<and> acc_inv acc'
           \<and> acc_N acc' = acc_N acc \<and> acc_phi acc' = acc_phi acc \<and> acc_H acc' = acc_H acc
           \<and> acc_n acc' = acc_n acc"
proof -
  let ?x = "acc_x acc" and ?w = "acc_w acc" and ?N = "acc_N acc" and ?al = "acc_alpha acc"
  have lx: "length ?x = nat (acc_n acc)" and lw: "length ?w = nat (acc_n acc)"
    and al: "0 \<le> ?al" "?al < ?N"
    and wit: "\<And>j. j < nat (acc_n acc) \<Longrightarrow>
                (?w ! j) ^ nat (acc_H acc (int j) (?x ! j)) mod ?N = ?al"
    using inv by (simp_all add: acc_inv_def)
  have p1: "1 < p" and q1: "1 < q" using p q by (simp_all add: is_prime_pos)
  have N0: "?N \<noteq> 0" using N p1 q1 by simp
  have Npos: "0 < ?N" using N p1 q1 by simp
  have phipos: "0 < acc_phi acc" using phi p1 q1 by simp
  define k where "k = nat i"
  have k: "int k = i" "k < length ?x" "k < length ?w" "k < nat (acc_n acc)"
    using i lx lw by (simp_all add: k_def)
  have gx: "py_get ?x i = Inr (?x ! k)"
    using py_get_nat [OF k(2)] k(1) by simp
  show ?thesis
  proof (cases "?x ! k = v")
    case True
    then have "update acc i v = Inr (False, acc)"
      by (simp add: update_def gx)
    with inv show ?thesis by blast
  next
    case False
    let ?px = "acc_H acc i (?x ! k)" and ?pv = "acc_H acc i v"
    obtain hi where hi: "py_pow ?px (- 1) (acc_phi acc) = Inr hi" "0 \<le> hi"
      "(?px * hi) mod (acc_phi acc) = 1 mod (acc_phi acc)"
      using py_pow_inverse [OF phipos, of ?px] H phi by auto
    have px: "0 \<le> ?px" and pv: "0 \<le> ?pv"
      using H [of i "?x ! k"] H [of i v] by simp_all
    define e where "e = hi * ?pv"
    have e0: "0 \<le> e" using hi(2) pv by (simp add: e_def)
    have ne_nat: "nat e = nat hi * nat ?pv"
      using hi(2) by (simp add: e_def nat_mult_distrib)
    let ?w' = "map (\<lambda>j. if int j \<noteq> i then (?w ! j) ^ nat e mod ?N else ?w ! j) [0..<length ?w]"
    let ?acc' = "acc\<lparr>acc_alpha := ?al ^ nat e mod ?N, acc_w := ?w', acc_x := ?x[k := v]\<rparr>"
    have sx: "py_set ?x i v = Inr (?x[k := v])"
      using py_set_nat [OF k(2), of v] k(1) by simp
    have loop: "fold_err (\<lambda>j w. if j \<noteq> i then
                    bind_err (py_get w j) (\<lambda>wj.
                    bind_err (py_pow wj (hi * ?pv) ?N) (\<lambda>wj'.
                    py_set w j wj'))
                  else Inr w) [0..acc_n acc - 1] ?w = Inr ?w'"
      using witness_loop_all [OF N0 e0 lw, where i = i] by (simp only: e_def)
    have pa: "py_pow ?al (hi * ?pv) ?N = Inr (?al ^ nat e mod ?N)"
      using py_pow_nonneg [OF N0 e0, of ?al] by (simp only: e_def)
    have u: "update acc i v = Inr (True, ?acc')"
      using False by (simp add: update_def Let_def gx hi(1) pa loop sx)
    have "(?w' ! j) ^ nat (acc_H acc (int j) (?x[k := v] ! j)) mod ?N = ?al ^ nat e mod ?N"
      if j: "j < nat (acc_n acc)" for j
    proof (cases "j = k")
      case True
      have root: "((?w ! k) ^ nat ?px) ^ nat hi mod (p * q) = (?w ! k) mod (p * q)"
        using hi(3) phi by (intro root_power [OF p q ne px hi(2)]) simp
      have "?al ^ nat e mod ?N = ((?w ! k) ^ nat ?px mod ?N) ^ nat e mod ?N"
        using wit [OF k(4)] k(1) by simp
      also have "\<dots> = ((?w ! k) ^ nat ?px) ^ nat e mod ?N"
        by (rule power_mod)
      also have "\<dots> = (((?w ! k) ^ nat ?px) ^ nat hi) ^ nat ?pv mod ?N"
        by (simp only: ne_nat power_mult)
      also have "\<dots> = (((?w ! k) ^ nat ?px) ^ nat hi mod ?N) ^ nat ?pv mod ?N"
        by (simp add: power_mod)
      also have "\<dots> = (?w ! k) ^ nat ?pv mod ?N"
        using root N by (simp add: power_mod)
      finally show ?thesis
        using True k by simp
    next
      case False
      then have "int j \<noteq> i" using k(1) by auto
      then have "(?w' ! j) ^ nat (acc_H acc (int j) (?x[k := v] ! j)) mod ?N
            = ((?w ! j) ^ nat e mod ?N) ^ nat (acc_H acc (int j) (?x ! j)) mod ?N"
        using False j lw by simp
      also have "\<dots> = ((?w ! j) ^ nat (acc_H acc (int j) (?x ! j)) mod ?N) ^ nat e mod ?N"
        by (rule power_power_mod_swap)
      also have "\<dots> = ?al ^ nat e mod ?N"
        using wit [OF j] by simp
      finally show ?thesis .
    qed
    then have "acc_inv ?acc'"
      using lx lw Npos by (simp add: acc_inv_def)
    moreover have "acc_N ?acc' = acc_N acc \<and> acc_phi ?acc' = acc_phi acc
        \<and> acc_H ?acc' = acc_H acc \<and> acc_n ?acc' = acc_n acc"
      by simp
    ultimately show ?thesis using u by blast
  qed
qed

lemma updates_preserve_inv:
  assumes p: "is_prime p" and q: "is_prime q" and ne: "p \<noteq> q"
    and H: "\<And>i s. 0 < acc_H acc i s \<and> coprime (acc_H acc i s) ((p - 1) * (q - 1))"
    and N: "acc_N acc = p * q" and phi: "acc_phi acc = (p - 1) * (q - 1)"
    and inv: "acc_inv acc"
    and ops: "\<forall>(i, v)\<in>set ops. 0 \<le> i \<and> i < acc_n acc"
  shows "\<exists>acc'. updates acc ops = Inr acc' \<and> acc_inv acc'
           \<and> acc_N acc' = acc_N acc \<and> acc_H acc' = acc_H acc \<and> acc_n acc' = acc_n acc"
  using H N phi inv ops
proof (induction ops arbitrary: acc)
  case Nil
  then show ?case by simp
next
  case (Cons op ops)
  obtain i v where op: "op = (i, v)" by (cases op)
  have i: "0 \<le> i" "i < acc_n acc" using Cons.prems(5) op by simp_all
  from update_preserves_inv [OF p q ne Cons.prems(1,2,3,4) i, of v] obtain changed acc1 where
    u: "update acc i v = Inr (changed, acc1)" and i1: "acc_inv acc1"
    and same: "acc_N acc1 = acc_N acc" "acc_phi acc1 = acc_phi acc" "acc_H acc1 = acc_H acc"
      "acc_n acc1 = acc_n acc"
    by blast
  have "\<exists>acc'. updates acc1 ops = Inr acc' \<and> acc_inv acc'
           \<and> acc_N acc' = acc_N acc1 \<and> acc_H acc' = acc_H acc1 \<and> acc_n acc' = acc_n acc1"
  proof (rule Cons.IH)
    show "0 < acc_H acc1 i s \<and> coprime (acc_H acc1 i s) ((p - 1) * (q - 1))" for i s
      using Cons.prems(1) same(3) by simp
    show "acc_N acc1 = p * q" using Cons.prems(2) same(1) by simp
    show "acc_phi acc1 = (p - 1) * (q - 1)" using Cons.prems(3) same(2) by simp
    show "acc_inv acc1" by (rule i1)
    show "\<forall>(i, v)\<in>set ops. 0 \<le> i \<and> i < acc_n acc1"
      using Cons.prems(5) same(4) by simp
  qed
  then show ?case
    using u same by (simp add: op)
qed

lemma acc_inv_slot:
  assumes inv: "acc_inv acc" and i: "0 \<le> i" "i < acc_n acc"
  shows "(acc_w acc ! nat i) ^ nat (acc_H acc i (acc_x acc ! nat i)) mod acc_N acc = acc_alpha acc"
proof -
  have "\<forall>j<nat (acc_n acc).
           (acc_w acc ! j) ^ nat (acc_H acc (int j) (acc_x acc ! j)) mod acc_N acc = acc_alpha acc"
    using inv by (simp add: acc_inv_def)
  moreover have "nat i < nat (acc_n acc)" using i by simp
  ultimately have "(acc_w acc ! nat i) ^ nat (acc_H acc (int (nat i)) (acc_x acc ! nat i)) mod acc_N acc
      = acc_alpha acc"
    by blast
  moreover have "int (nat i) = i" using i(1) by simp
  ultimately show ?thesis by simp
qed

lemma inv_is_member:
  assumes inv: "acc_inv acc" and N: "acc_N acc \<noteq> 0"
    and H: "0 \<le> acc_H acc i (acc_x acc ! nat i)"
    and i: "0 \<le> i" "i < acc_n acc"
  shows "is_member acc i (acc_x acc ! nat i) = Inr True"
proof -
  define k where "k = nat i"
  have lx: "length (acc_x acc) = nat (acc_n acc)" and lw: "length (acc_w acc) = nat (acc_n acc)"
    using inv by (simp_all add: acc_inv_def)
  have wit: "(acc_w acc ! k) ^ nat (acc_H acc i (acc_x acc ! k)) mod acc_N acc = acc_alpha acc"
    using acc_inv_slot [OF inv i] by (simp add: k_def)
  have k: "int k = i" "k < length (acc_x acc)" "k < length (acc_w acc)"
    using i lx lw by (simp_all add: k_def)
  have gx: "py_get (acc_x acc) i = Inr (acc_x acc ! k)"
    using py_get_nat [OF k(2)] k(1) by simp
  have gw: "py_get (acc_w acc) i = Inr (acc_w acc ! k)"
    using py_get_nat [OF k(3)] k(1) by simp
  have "proof_acc acc i (acc_x acc ! k) = Inr (acc_alpha acc)"
    using H wit by (simp add: proof_acc_def gw py_pow_nonneg [OF N] k_def)
  then show ?thesis
    by (simp add: is_member_def gx k_def [symmetric])
qed

text \<open>
  C4, as stated: for \<open>p\<close>, \<open>q\<close> with the base \<open>r\<close> coprime to \<open>N = p * q\<close> and every hash
  exponent coprime to \<open>phi = (p - 1) * (q - 1)\<close>, every slot satisfies
  \<open>w[i] ^ H(i, x[i]) = alpha\<close> modulo \<open>N\<close> after \<open>__init__\<close>, so \<open>is_member(i, x[i])\<close> is true.
  For \<open>p = 9\<close>, \<open>q = 2\<close>, \<open>r = 5\<close> and the exponent 13 the hypotheses hold, and
  \<open>is_member(0, "")\<close> is false right after \<open>__init__\<close>: 9 is no prime, and \<open>phi = 8\<close> is no
  multiple of the order 6 of the units modulo 18.
\<close>

theorem accumulator_invariant_counterexample:
  "coprime 5 (9 * 2 :: int) \<and> coprime (composite_H 0 []) ((9 - 1) * (2 - 1))
   \<and> Accumulator_init 9 2 1 None 0 0 5 composite_H = Inr composite_acc
   \<and> is_member composite_acc 0 (acc_x composite_acc ! 0) = Inr False"
proof -
  have "coprime 5 (9 * 2 :: int)" "coprime (13::int) ((9 - 1) * (2 - 1))"
    by code_simp+
  moreover have "Accumulator_init 9 2 1 None 0 0 5 composite_H = Inr composite_acc"
    by (simp add: Accumulator_init_def composite_acc_def composite_H_def randbelow_def
      py_get_def py_set_def py_index_def py_pow_def py_inverse_def upto.simps)
  moreover have "is_member composite_acc 0 (acc_x composite_acc ! 0) = Inr False"
    by (simp add: is_member_def proof_acc_def composite_acc_def composite_H_def
      py_get_def py_index_def py_pow_def)
  ultimately show ?thesis by (simp add: composite_H_def)
qed

text \<open>
  C4, amended: for distinct primes \<open>p\<close>, \<open>q\<close> with the base \<open>r\<close> coprime to \<open>N = p * q\<close> and
  every hash exponent positive and coprime to \<open>phi = (p - 1) * (q - 1)\<close>, \<open>__init__\<close> and any
  sequence of \<open>update\<close> calls with in-range slot indices \<open>0 \<le> i < n\<close> raise nothing, and
  afterwards every slot \<open>i\<close> satisfies \<open>w[i] ^ H(i, x[i]) = alpha\<close> modulo \<open>N\<close> and
  \<open>is_member(i, x[i])\<close> is true for the value the slot stores.
\<close>

theorem accumulator_invariant:
  assumes p: "is_prime p" and q: "is_prime q" and ne: "p \<noteq> q"
    and r: "coprime r (p * q)"
    and H: "\<forall>i s. 0 < H i s \<and> coprime (H i s) ((p - 1) * (q - 1))"
    and ops: "\<forall>(i, v)\<in>set ops. 0 \<le> i \<and> i < n"
  shows "\<exists>acc0 acc. Accumulator_init p q n seed security now r H = Inr acc0
          \<and> updates acc0 ops = Inr acc
          \<and> (\<forall>i. 0 \<le> i \<and> i < n \<longrightarrow>
                (acc_w acc ! nat i) ^ nat (H i (acc_x acc ! nat i)) mod (p * q)
                  = acc_alpha acc mod (p * q)
                \<and> is_member acc i (acc_x acc ! nat i) = Inr True)"
proof -
  from Accumulator_init_inv [OF p q ne, of H n seed security now r] H obtain acc0 where
    a0: "Accumulator_init p q n seed security now r H = Inr acc0" "acc_inv acc0"
      "acc_N acc0 = p * q" "acc_phi acc0 = (p - 1) * (q - 1)" "acc_H acc0 = H" "acc_n acc0 = n"
    by blast
  have "\<exists>acc'. updates acc0 ops = Inr acc' \<and> acc_inv acc'
           \<and> acc_N acc' = acc_N acc0 \<and> acc_H acc' = acc_H acc0 \<and> acc_n acc' = acc_n acc0"
    using H ops a0 by (intro updates_preserve_inv [OF p q ne]) simp_all
  then obtain acc where a: "updates acc0 ops = Inr acc" "acc_inv acc"
    "acc_N acc = p * q" "acc_H acc = H" "acc_n acc = n"
    using a0 by auto
  have N0: "acc_N acc \<noteq> 0"
    using a(3) is_prime_pos [OF p] is_prime_pos [OF q] by simp
  have "(acc_w acc ! nat i) ^ nat (H i (acc_x acc ! nat i)) mod (p * q)
                  = acc_alpha acc mod (p * q)
        \<and> is_member acc i (acc_x acc ! nat i) = Inr True"
    if i: "0 \<le> i" "i < n" for i
  proof
    have "(acc_w acc ! nat i) ^ nat (acc_H acc i (acc_x acc ! nat i)) mod acc_N acc
          = acc_alpha acc"
      using i a(5) by (intro acc_inv_slot [OF a(2)]) simp_all
    moreover have "acc_alpha acc mod (p * q) = acc_alpha acc"
      using a(2,3) by (simp add: acc_inv_def)
    ultimately show "(acc_w acc ! nat i) ^ nat (H i (acc_x acc ! nat i)) mod (p * q)
                  = acc_alpha acc mod (p * q)"
      using a(3,4) by simp
    show "is_member acc i (acc_x acc ! nat i) = Inr True"
    proof (rule inv_is_member [OF a(2) N0])
      show "0 \<le> acc_H acc i (acc_x acc ! nat i)"
        using H a(4) by (simp add: less_imp_le)
      show "0 \<le> i" "i < acc_n acc" using i a(5) by simp_all
    qed
  qed
  with a0(1) a(1) show ?thesis by blast
qed

lemma is_prime_3: "is_prime 3"
  by code_simp

lemma example_H_coprime: "0 < example_H i s \<and> coprime (example_H i s) ((3 - 1) * (5 - 1))"
proof -
  have "coprime (3::int) 8" "coprime (5::int) 8" by code_simp+
  then show ?thesis by (simp add: example_H_def)
qed

theorem accumulator_invariant_witness:
  "is_prime 3 \<and> is_prime 5 \<and> (3::int) \<noteq> 5 \<and> coprime 2 (3 * 5 :: int)
   \<and> (\<forall>i s. 0 < example_H i s \<and> coprime (example_H i s) ((3 - 1) * (5 - 1)))
   \<and> (0::int) \<le> 0 \<and> (0::int) < 2
   \<and> (\<exists>acc0 acc. Accumulator_init 3 5 2 None 0 0 2 example_H = Inr acc0
          \<and> updates acc0 [(0, ''a'')] = Inr acc
          \<and> (\<forall>i. 0 \<le> i \<and> i < 2 \<longrightarrow>
                (acc_w acc ! nat i) ^ nat (example_H i (acc_x acc ! nat i)) mod (3 * 5)
                  = acc_alpha acc mod (3 * 5)
                \<and> is_member acc i (acc_x acc ! nat i) = Inr True))"
proof -
  have h1: "(3::int) \<noteq> 5" by simp
  have h2: "coprime 2 (3 * 5 :: int)" by code_simp
  have h3: "\<forall>i s. 0 < example_H i s \<and> coprime (example_H i s) ((3 - 1) * (5 - 1))"
    using example_H_coprime by blast
  have h4: "\<forall>(i, v)\<in>set [(0, ''a'')]. 0 \<le> i \<and> i < (2::int)" by simp
  note t = accumulator_invariant [OF is_prime_3 is_prime_5 h1 h2 h3 h4,
      where seed = None and security = 0 and now = 0]
  have h5: "(0::int) \<le> 0" "(0::int) < 2" by simp_all
  show ?thesis
    by (rule conjI [OF is_prime_3 conjI [OF is_prime_5 conjI [OF h1 conjI [OF h2
          conjI [OF h3 conjI [OF h5(1) conjI [OF h5(2) t]]]]]]])
qed

section \<open>Lagrange interpolation modulo a prime\<close>

lemma pdeg_scale: "pdeg m g \<Longrightarrow> pdeg m (\<lambda>t. c * g t)"
proof (induction rule: pdeg.induct)
  case (pdeg_const m c0)
  show ?case by (rule pdeg.pdeg_const)
next
  case (pdeg_add m g h)
  have "(\<lambda>t. c * (g t + h t)) = (\<lambda>t. c * g t + c * h t)"
    by (simp add: distrib_left)
  with pdeg.pdeg_add [OF pdeg_add.IH] show ?case by simp
next
  case (pdeg_lin m g a)
  have "(\<lambda>t. c * ((t - a) * g t)) = (\<lambda>t. (t - a) * (c * g t))"
    by (simp add: mult.left_commute)
  with pdeg.pdeg_lin [OF pdeg_lin.IH, of a] show ?case by simp
next
  case (pdeg_up m g)
  then show ?case by (intro pdeg.pdeg_up)
qed

lemma pdeg_mono: "m \<le> n \<Longrightarrow> pdeg m g \<Longrightarrow> pdeg n g"
  by (induction n) (auto simp: le_Suc_eq intro: pdeg_up)

lemma pdeg_diff:
  assumes "pdeg m g" and "pdeg m h"
  shows "pdeg m (\<lambda>t. g t - h t)"
proof -
  have "pdeg m (\<lambda>t. g t + (- 1) * h t)"
    by (intro pdeg_add assms pdeg_scale)
  then show ?thesis by simp
qed

lemma pdeg_sum:
  assumes "finite A" and "\<And>i. i \<in> A \<Longrightarrow> pdeg m (f i)"
  shows "pdeg m (\<lambda>t. \<Sum>i\<in>A. f i t)"
  using assms
proof (induction A rule: finite_induct)
  case empty
  show ?case by (simp add: pdeg_const)
next
  case (insert i A)
  have "pdeg m (\<lambda>t. f i t + (\<Sum>i\<in>A. f i t))"
    using insert by (intro pdeg_add) simp_all
  with insert.hyps show ?case by simp
qed

lemma pdeg_prod_linear:
  assumes "finite A"
  shows "pdeg (card A) (\<lambda>t. \<Prod>j\<in>A. (x j - t))"
  using assms
proof (induction A rule: finite_induct)
  case empty
  show ?case by (simp add: pdeg_const)
next
  case (insert j A)
  have "pdeg (Suc (card A)) (\<lambda>t. (t - x j) * ((- 1) * (\<Prod>j\<in>A. (x j - t))))"
    by (intro pdeg_lin pdeg_scale insert.IH)
  moreover have "(\<lambda>t. (t - x j) * ((- 1) * (\<Prod>j\<in>A. (x j - t))))
      = (\<lambda>t. \<Prod>j\<in>insert j A. (x j - t))"
    using insert.hyps by (simp add: fun_eq_iff algebra_simps)
  ultimately show ?case using insert.hyps by simp
qed

lemma pdeg_poly_eval: "pdeg (length cs - 1) (poly_eval cs)"
proof (induction cs)
  case Nil
  have "poly_eval [] = (\<lambda>t. 0)" by (simp add: fun_eq_iff)
  then show ?case by (simp add: pdeg_const)
next
  case (Cons c cs)
  show ?case
  proof (cases cs)
    case Nil
    then have "poly_eval (c # cs) = (\<lambda>t. c)" by (simp add: fun_eq_iff)
    then show ?thesis by (simp add: pdeg_const)
  next
    case (Cons c' cs')
    have "pdeg (Suc (length cs - 1)) (\<lambda>t. (\<lambda>t. c) t + (t - 0) * poly_eval cs t)"
      by (intro pdeg_add pdeg_const pdeg_lin Cons.IH)
    moreover have "(\<lambda>t. (\<lambda>t. c) t + (t - 0) * poly_eval cs t) = poly_eval (c # cs)"
      by (simp add: fun_eq_iff)
    ultimately show ?thesis using Cons by simp
  qed
qed

lemma pdeg_divide:
  assumes "pdeg m P"
  shows "\<exists>Q. (\<forall>t. P t - P a = (t - a) * Q t)
           \<and> (case m of 0 \<Rightarrow> \<forall>t. Q t = 0 | Suc k \<Rightarrow> pdeg k Q)"
  using assms
proof (induction rule: pdeg.induct)
  case (pdeg_const m c)
  show ?case
    by (intro exI [of _ "\<lambda>t. 0"]) (simp add: pdeg.pdeg_const split: nat.splits)
next
  case (pdeg_add m g h)
  then obtain Qg Qh where
    g: "\<forall>t. g t - g a = (t - a) * Qg t" "case m of 0 \<Rightarrow> \<forall>t. Qg t = 0 | Suc k \<Rightarrow> pdeg k Qg" and
    h: "\<forall>t. h t - h a = (t - a) * Qh t" "case m of 0 \<Rightarrow> \<forall>t. Qh t = 0 | Suc k \<Rightarrow> pdeg k Qh"
    by blast
  show ?case
  proof (intro exI [of _ "\<lambda>t. Qg t + Qh t"] conjI allI)
    fix t
    have "g t + h t - (g a + h a) = (g t - g a) + (h t - h a)" by simp
    also have "\<dots> = (t - a) * (Qg t + Qh t)"
      using g(1) h(1) by (simp add: distrib_left)
    finally show "g t + h t - (g a + h a) = (t - a) * (Qg t + Qh t)" .
  next
    show "case m of 0 \<Rightarrow> \<forall>t. Qg t + Qh t = 0 | Suc k \<Rightarrow> pdeg k (\<lambda>t. Qg t + Qh t)"
      using g(2) h(2) by (auto split: nat.splits intro: pdeg.pdeg_add)
  qed
next
  case (pdeg_lin m g b)
  then obtain Qg where
    g: "\<forall>t. g t - g a = (t - a) * Qg t" "case m of 0 \<Rightarrow> \<forall>t. Qg t = 0 | Suc k \<Rightarrow> pdeg k Qg"
    by blast
  show ?case
  proof (intro exI [of _ "\<lambda>t. (t - b) * Qg t + g a"] conjI allI)
    fix t
    have "(t - b) * g t - (a - b) * g a = (t - b) * (g t - g a) + (t - a) * g a"
      by (simp add: algebra_simps)
    also have "\<dots> = (t - b) * ((t - a) * Qg t) + (t - a) * g a"
      using g(1) by simp
    also have "\<dots> = (t - a) * ((t - b) * Qg t + g a)"
      by (simp add: algebra_simps)
    finally show "(t - b) * g t - (a - b) * g a = (t - a) * ((t - b) * Qg t + g a)" .
  next
    have "pdeg m (\<lambda>t. (t - b) * Qg t + g a)"
    proof (cases m)
      case 0
      with g(2) have "(\<lambda>t. (t - b) * Qg t + g a) = (\<lambda>t. g a)" by (simp add: fun_eq_iff)
      then show ?thesis by (simp add: pdeg.pdeg_const)
    next
      case (Suc k)
      with g(2) have "pdeg k Qg" by simp
      then have "pdeg (Suc k) (\<lambda>t. (t - b) * Qg t + (\<lambda>t. g a) t)"
        by (intro pdeg.pdeg_add pdeg.pdeg_lin pdeg.pdeg_const)
      with Suc show ?thesis by simp
    qed
    then show "case Suc m of 0 \<Rightarrow> \<forall>t. (t - b) * Qg t + g a = 0
               | Suc k \<Rightarrow> pdeg k (\<lambda>t. (t - b) * Qg t + g a)"
      by simp
  qed
next
  case (pdeg_up m g)
  then obtain Qg where
    g: "\<forall>t. g t - g a = (t - a) * Qg t" "case m of 0 \<Rightarrow> \<forall>t. Qg t = 0 | Suc k \<Rightarrow> pdeg k Qg"
    by blast
  have "pdeg m Qg"
  proof (cases m)
    case 0
    with g(2) have "Qg = (\<lambda>t. 0)" by (simp add: fun_eq_iff)
    then show ?thesis by (simp add: pdeg.pdeg_const)
  next
    case (Suc k)
    with g(2) show ?thesis by (simp add: pdeg.pdeg_up)
  qed
  with g(1) show ?case by auto
qed

lemma pdeg_roots:
  assumes q: "is_prime q"
  shows "pdeg m P \<Longrightarrow> finite R \<Longrightarrow> m < card R \<Longrightarrow> inj_on (\<lambda>r. r mod q) R
           \<Longrightarrow> (\<forall>r\<in>R. q dvd P r) \<Longrightarrow> q dvd P t"
proof (induction m arbitrary: P R t)
  case 0
  then obtain a where a: "a \<in> R" by (cases "R = {}") auto
  from pdeg_divide [OF "0.prems"(1), of a] obtain Q where
    "\<forall>t. P t - P a = (t - a) * Q t" "\<forall>t. Q t = 0"
    by auto
  then have "P t = P a" by (metis mult_zero_right eq_iff_diff_eq_0)
  with "0.prems"(5) a show ?case by simp
next
  case (Suc m)
  then obtain a where a: "a \<in> R" by (cases "R = {}") auto
  from pdeg_divide [OF Suc.prems(1), of a] obtain Q where
    Q: "\<forall>t. P t - P a = (t - a) * Q t" "pdeg m Q"
    by auto
  let ?R = "R - {a}"
  have "q dvd Q b" if b: "b \<in> ?R" for b
  proof -
    have "q dvd P b - P a"
      using Suc.prems(5) a b by (intro dvd_diff) simp_all
    then have "q dvd (b - a) * Q b" using Q(1) by simp
    moreover have "\<not> q dvd b - a"
    proof
      assume "q dvd b - a"
      then have "b mod q = a mod q" using mod_eq_dvd_iff by blast
      with Suc.prems(4) a b show False by (auto dest: inj_onD)
    qed
    ultimately show ?thesis using is_prime_dvd_mult [OF q] by blast
  qed
  moreover have "finite ?R" "m < card ?R" "inj_on (\<lambda>r. r mod q) ?R"
    using Suc.prems(2,3,4) a by (auto intro: inj_on_diff)
  ultimately have "q dvd Q t"
    using Suc.IH [OF Q(2), of ?R t] by blast
  then have "q dvd (t - a) * Q t" by simp
  then have "q dvd P t - P a" using Q(1) by simp
  moreover have "q dvd P a" using Suc.prems(5) a by simp
  ultimately have "q dvd (P t - P a) + P a" by (rule dvd_add)
  then show ?case by simp
qed

text \<open>
  Lagrange interpolation at 0 modulo a prime: \<open>l\<close> points \<open>x 0, \<dots>, x (l - 1)\<close> distinct
  modulo \<open>q\<close>, a polynomial function \<open>P\<close> of degree below \<open>l\<close>, values \<open>y i\<close> congruent to
  \<open>P (x i)\<close>, and for each \<open>i\<close> an inverse \<open>c i\<close> of the denominator.
\<close>

lemma lagrange_zero:
  assumes q: "is_prime q"
    and inj: "inj_on (\<lambda>i. x i mod q) {..<l}"
    and P: "pdeg m P" and m: "m < l"
    and c: "\<And>i. i < l \<Longrightarrow> (c i * (\<Prod>j\<in>{..<l} - {i}. (x j - x i))) mod q = 1"
    and y: "\<And>i. i < l \<Longrightarrow> y i mod q = P (x i) mod q"
  shows "(\<Sum>i<l. y i * c i * (\<Prod>j\<in>{..<l} - {i}. x j)) mod q = P 0 mod q"
proof -
  define D where "D t = (\<Sum>i<l. y i * c i * (\<Prod>j\<in>{..<l} - {i}. (x j - t))) - P t" for t
  have q1: "1 < q" using q by (rule is_prime_pos)
  have summand: "pdeg (l - 1) (\<lambda>t. (y i * c i) * (\<Prod>j\<in>{..<l} - {i}. (x j - t)))" if "i \<in> {..<l}" for i
  proof -
    have "card ({..<l} - {i}) = l - 1" using that by simp
    with pdeg_prod_linear [of "{..<l} - {i}" x] have "pdeg (l - 1) (\<lambda>t. \<Prod>j\<in>{..<l} - {i}. (x j - t))"
      by simp
    then show ?thesis by (rule pdeg_scale)
  qed
  have "pdeg (l - 1) (\<lambda>t. (\<Sum>i<l. (y i * c i) * (\<Prod>j\<in>{..<l} - {i}. (x j - t))) - P t)"
  proof (rule pdeg_diff)
    show "pdeg (l - 1) (\<lambda>t. \<Sum>i<l. (y i * c i) * (\<Prod>j\<in>{..<l} - {i}. (x j - t)))"
      using summand by (intro pdeg_sum) simp_all
    show "pdeg (l - 1) P"
    proof (rule pdeg_mono [OF _ P])
      show "m \<le> l - 1" using m by simp
    qed
  qed
  moreover have "D = (\<lambda>t. (\<Sum>i<l. (y i * c i) * (\<Prod>j\<in>{..<l} - {i}. (x j - t))) - P t)"
    by (rule ext) (simp only: D_def)
  ultimately have degD: "pdeg (l - 1) D"
    by (simp only:)
  let ?R = "x ` {..<l}"
  have injx: "inj_on x {..<l}"
    using inj by (auto simp: inj_on_def)
  have cardR: "card ?R = l"
    using injx by (simp add: card_image)
  have injR: "inj_on (\<lambda>r. r mod q) ?R"
    using inj by (auto simp: inj_on_def)
  have root: "q dvd D (x k)" if k: "k < l" for k
  proof -
    let ?f = "\<lambda>i. y i * c i * (\<Prod>j\<in>{..<l} - {i}. (x j - x k))"
    have zero: "?f i = 0" if "i \<in> {..<l} - {k}" for i
    proof -
      have "k \<in> {..<l} - {i}" using that k by auto
      then have "(\<Prod>j\<in>{..<l} - {i}. (x j - x k)) = 0"
        by (intro prod_zero) auto
      then show ?thesis by simp
    qed
    have "(\<Sum>i<l. ?f i) = ?f k + (\<Sum>i\<in>{..<l} - {k}. ?f i)"
      using k by (intro sum.remove) simp_all
    also have "(\<Sum>i\<in>{..<l} - {k}. ?f i) = 0"
      using zero by (intro sum.neutral) blast
    finally have sum: "(\<Sum>i<l. ?f i) = y k * (c k * (\<Prod>j\<in>{..<l} - {k}. (x j - x k)))"
      by (simp add: mult.assoc)
    have "(\<Sum>i<l. ?f i) mod q = (y k mod q * ((c k * (\<Prod>j\<in>{..<l} - {k}. (x j - x k))) mod q)) mod q"
      unfolding sum by (rule mod_mult_eq [symmetric])
    also have "\<dots> = (P (x k) mod q * 1) mod q"
      by (simp only: c [OF k] y [OF k])
    also have "\<dots> = P (x k) mod q"
      by simp
    finally have "q dvd (\<Sum>i<l. ?f i) - P (x k)"
      using mod_eq_dvd_iff by blast
    then show ?thesis by (simp add: D_def)
  qed
  have "q dvd D 0"
  proof (rule pdeg_roots [OF q degD])
    show "finite ?R" by simp
    show "l - 1 < card ?R" using cardR m by simp
    show "inj_on (\<lambda>r. r mod q) ?R" by (rule injR)
    show "\<forall>r\<in>?R. q dvd D r" using root by auto
  qed
  then have "q dvd (\<Sum>i<l. y i * c i * (\<Prod>j\<in>{..<l} - {i}. x j)) - P 0"
    by (simp add: D_def)
  then show ?thesis
    using mod_eq_dvd_iff by blast
qed

section \<open>Shamir sharing: what the loops compute\<close>

lemma poly_eval_snoc: "poly_eval (cs @ [c]) t = poly_eval cs t + c * t ^ length cs"
  by (induction cs) (simp_all add: algebra_simps)

lemma polynomial_loop:
  assumes q: "0 < q" and v: "val mod q \<noteq> 0" and k: "k \<le> length cs"
  shows "fold_err (\<lambda>i polVal.
           bind_err (py_get cs i) (\<lambda>c.
           bind_err (power val i q) (\<lambda>pw.
           py_mod (polVal + c * pw) q)))
         [0..int k - 1] 0 = Inr (poly_eval (take k cs) val mod q)"
  using k
proof (induction k)
  case 0
  show ?case by simp
next
  case (Suc k)
  have kl: "k < length cs" using Suc.prems by simp
  have tk: "take (Suc k) cs = take k cs @ [cs ! k]"
    using kl by (rule take_Suc_conv_app_nth)
  have "(poly_eval (take k cs) val mod q + cs ! k * (val ^ k mod q)) mod q
        = (poly_eval (take k cs) val + cs ! k * (val ^ k mod q)) mod q"
    by (simp add: mod_add_left_eq)
  also have "\<dots> = (poly_eval (take k cs) val + cs ! k * val ^ k) mod q"
    by (metis mod_add_right_eq mod_mult_right_eq)
  also have "\<dots> = poly_eval (take (Suc k) cs) val mod q"
    using kl by (simp add: tk poly_eval_snoc)
  finally have step: "(poly_eval (take k cs) val mod q + cs ! k * (val ^ k mod q)) mod q
        = poly_eval (take (Suc k) cs) val mod q" .
  have pw: "power val (int k) q = Inr (val ^ k mod q)"
    using q v by (simp add: power_eq)
  have q0: "q \<noteq> 0" using q by simp
  show ?case
    using Suc.IH kl
    by (simp add: upto_snoc_nat fold_err_append pw py_mod_nonzero [OF q0] step
        del: of_nat_Suc take_Suc_conv_app_nth)
qed

lemma polynomial_eq:
  assumes q: "0 < q" and v: "val mod q \<noteq> 0" and f: "int (length cs) = f + 1"
  shows "polynomial val cs f q = Inr (poly_eval cs val mod q)"
proof -
  have "[0..f] = [0..int (length cs) - 1]" using f by simp
  then show ?thesis
    using polynomial_loop [OF q v order_refl, of cs] by (simp add: polynomial_def)
qed

lemma fold_err_map:
  assumes "\<And>x. x \<in> set xs \<Longrightarrow> h x = Inr (g x)"
  shows "fold_err (\<lambda>x acc. bind_err (h x) (\<lambda>v. Inr (acc @ [(x, v)]))) xs acc0
         = Inr (acc0 @ map (\<lambda>x. (x, g x)) xs)"
  using assms by (induction xs arbitrary: acc0) simp_all

lemma share_eq:
  assumes q: "0 < q" and f: "0 \<le> f" and n: "n < q"
  shows "share s f n q rnd
         = Inr (map (\<lambda>i. (i, poly_eval (s # map (\<lambda>i. rnd (nat i)) [0..f - 1]) i mod q)) [1..n])"
proof -
  let ?cs = "s # map (\<lambda>i. rnd (nat i)) [0..f - 1]"
  have len: "int (length ?cs) = f + 1" using f by simp
  have "polynomial i ?cs f q = Inr (poly_eval ?cs i mod q)" if "i \<in> set [1..n]" for i
  proof (rule polynomial_eq [OF q _ len])
    have "0 < i" "i < q" using that n by simp_all
    then show "i mod q \<noteq> 0" by simp
  qed
  then have "fold_err (\<lambda>i shares.
           bind_err (polynomial i ?cs f q) (\<lambda>polVal. Inr (shares @ [(i, polVal)])))
         [1..n] [] = Inr ([] @ map (\<lambda>i. (i, poly_eval ?cs i mod q)) [1..n])"
    by (rule fold_err_map)
  then show ?thesis
    using q by (simp add: share_def generateCoefficients_eq)
qed

lemma lagrange_terms_eq:
  assumes m: "1 < m"
  shows "lagrange_terms shares m i
         = Inr ((\<Prod>j\<in>{..<length shares} - {i}. fst (shares ! j)) mod m,
                (\<Prod>j\<in>{..<length shares} - {i}. (fst (shares ! j) - fst (shares ! i))) mod m)"
proof -
  let ?step = "\<lambda>j (numerator, denominator).
         if i \<noteq> j then
           bind_err (py_mod (numerator * fst (shares ! j)) m) (\<lambda>numerator'.
           bind_err (py_mod (denominator * (fst (shares ! j) - fst (shares ! i))) m) (\<lambda>denominator'.
           Inr (numerator', denominator')))
         else Inr (numerator, denominator)"
  have m0: "m \<noteq> 0" using m by simp
  have "fold_err ?step [0..<k] (1, 1)
         = Inr ((\<Prod>j\<in>{..<k} - {i}. fst (shares ! j)) mod m,
                (\<Prod>j\<in>{..<k} - {i}. (fst (shares ! j) - fst (shares ! i))) mod m)" for k
  proof (induction k)
    case 0
    show ?case using m by simp
  next
    case (Suc k)
    show ?case
    proof (cases "i = k")
      case True
      then have "{..<Suc k} - {i} = {..<k} - {i}" by auto
      with Suc True show ?thesis by (simp add: fold_err_append)
    next
      case False
      then have set: "{..<Suc k} - {i} = insert k ({..<k} - {i})" by auto
      have fin: "finite ({..<k} - {i})" "k \<notin> {..<k} - {i}" by simp_all
      show ?thesis
        using Suc False
        by (simp add: fold_err_append py_mod_nonzero [OF m0] set prod.insert [OF fin]
            mod_simps mult.commute)
    qed
  qed
  then show ?thesis by (simp add: lagrange_terms_def)
qed

lemma modInverse_nonneg:
  assumes "0 < q" and "0 \<le> d"
  shows "modInverse d q = Inr (fermat_inv d q)"
  using assms by (simp add: modInverse_def power_eq fermat_inv_def)

lemma reconstruct_eq:
  assumes q: "1 < q"
  shows "reconstruct shares q
         = Inr ((\<Sum>i<length shares.
                   fermat_inv (lag_den shares i mod q) q
                     * (lag_num shares i mod q * snd (shares ! i))) mod q)"
proof -
  let ?step = "\<lambda>i secret.
         bind_err (lagrange_terms shares q i) (\<lambda>(numerator, denominator).
         let numerator' = numerator * snd (shares ! i) in
         bind_err (modInverse denominator q) (\<lambda>inverted.
         py_mod (secret + inverted * numerator') q))"
  let ?t = "\<lambda>i. fermat_inv (lag_den shares i mod q) q * (lag_num shares i mod q * snd (shares ! i))"
  have q0: "0 < q" "q \<noteq> 0" using q by simp_all
  have step: "?step = (\<lambda>i s. Inr ((s + ?t i) mod q))"
  proof (intro ext)
    fix i s
    have "0 \<le> lag_den shares i mod q" using q0(1) by simp
    then have "modInverse (lag_den shares i mod q) q = Inr (fermat_inv (lag_den shares i mod q) q)"
      by (rule modInverse_nonneg [OF q0(1)])
    then show "?step i s = Inr ((s + ?t i) mod q)"
      using q0(2)
      by (simp add: lagrange_terms_eq [OF q] lag_num_def [symmetric] lag_den_def [symmetric])
  qed
  have "fold_err (\<lambda>i s. Inr ((s + ?t i) mod q)) [0..<k] 0 = Inr ((\<Sum>i<k. ?t i) mod q)" for k
  proof (induction k)
    case 0
    show ?case by simp
  next
    case (Suc k)
    have "((\<Sum>i<k. ?t i) mod q + ?t k) mod q = ((\<Sum>i<k. ?t i) + ?t k) mod q"
      by (simp add: mod_add_left_eq)
    then show ?case
      using Suc by (simp add: fold_err_append)
  qed
  then show ?thesis
    unfolding reconstruct_def step by simp
qed

lemma fermat_inv_mult:
  assumes q: "is_prime q" and nd: "\<not> q dvd D"
  shows "(fermat_inv (D mod q) q * D) mod q = 1"
proof -
  have nz: "D mod q mod q \<noteq> 0" using nd by (simp add: dvd_eq_mod_eq_0)
  have "(fermat_inv (D mod q) q * D) mod q = (((D mod q) ^ nat (q - 2) mod q) * D) mod q"
    using nz by (simp add: fermat_inv_def)
  also have "\<dots> = (D ^ nat (q - 2) * D) mod q"
    by (simp add: mod_simps power_mod)
  also have "\<dots> = (D * D ^ nat (q - 2)) mod q"
    by (simp add: mult.commute)
  also have "\<dots> = 1"
    by (rule fermat_inverse [OF q nd])
  finally show ?thesis .
qed

lemma sum_mod_cong:
  assumes "\<And>i. i \<in> A \<Longrightarrow> f i mod q = g i mod (q::int)"
  shows "(\<Sum>i\<in>A. f i) mod q = (\<Sum>i\<in>A. g i) mod q"
proof -
  have "(\<Sum>i\<in>A. f i) mod q = (\<Sum>i\<in>A. f i mod q) mod q"
    by (rule mod_sum_eq [symmetric])
  also have "(\<Sum>i\<in>A. f i mod q) = (\<Sum>i\<in>A. g i mod q)"
    using assms by (rule sum.cong [OF refl])
  also have "(\<Sum>i\<in>A. g i mod q) mod q = (\<Sum>i\<in>A. g i) mod q"
    by (rule mod_sum_eq)
  finally show ?thesis .
qed

text \<open>
  Reconstruction from shares that lie on a polynomial: points distinct and nonzero modulo
  the prime \<open>q\<close>, more of them than the degree.
\<close>

lemma reconstruct_poly:
  assumes q: "is_prime q"
    and pts: "\<And>i. i < length sub \<Longrightarrow> 0 < fst (sub ! i) \<and> fst (sub ! i) < q"
    and dist: "distinct (map fst sub)"
    and vals: "\<And>i. i < length sub \<Longrightarrow> snd (sub ! i) = poly_eval cs (fst (sub ! i)) mod q"
    and deg: "length cs \<le> length sub" "cs \<noteq> []"
  shows "reconstruct sub q = Inr (poly_eval cs 0 mod q)"
proof -
  let ?l = "length sub"
  let ?x = "\<lambda>i. fst (sub ! i)" and ?y = "\<lambda>i. snd (sub ! i)"
  let ?c = "\<lambda>i. fermat_inv (lag_den sub i mod q) q"
  have q1: "1 < q" using q by (rule is_prime_pos)
  have inj: "inj_on (\<lambda>i. ?x i mod q) {..<?l}"
  proof (rule inj_onI)
    fix i j assume i: "i \<in> {..<?l}" and j: "j \<in> {..<?l}" and eq: "?x i mod q = ?x j mod q"
    have "?x i mod q = ?x i" "?x j mod q = ?x j"
      using pts [of i] pts [of j] i j by simp_all
    with eq have "?x i = ?x j" by simp
    moreover from dist have "\<forall>i<?l. \<forall>j<?l. i \<noteq> j \<longrightarrow> ?x i \<noteq> ?x j"
      by (simp add: distinct_conv_nth)
    ultimately show "i = j" using i j by blast
  qed
  have nd: "\<not> q dvd lag_den sub i" if i: "i < ?l" for i
  proof
    assume "q dvd lag_den sub i"
    then have "\<exists>j\<in>{..<?l} - {i}. q dvd (?x j - ?x i)"
      unfolding lag_den_def by (intro is_prime_dvd_prod [OF q]) simp_all
    then obtain j where j: "j < ?l" "j \<noteq> i" "q dvd (?x j - ?x i)" by auto
    then have "?x j mod q = ?x i mod q" using mod_eq_dvd_iff by blast
    with inj i j(1,2) show False by (auto dest: inj_onD)
  qed
  have c: "(?c i * (\<Prod>j\<in>{..<?l} - {i}. (?x j - ?x i))) mod q = 1" if i: "i < ?l" for i
    using fermat_inv_mult [OF q nd [OF i]] by (simp add: lag_den_def)
  have y: "?y i mod q = poly_eval cs (?x i) mod q" if i: "i < ?l" for i
    using vals [OF i] by simp
  have m: "length cs - 1 < ?l" using deg by (cases cs) simp_all
  have lag: "(\<Sum>i<?l. ?y i * ?c i * (\<Prod>j\<in>{..<?l} - {i}. ?x j)) mod q = poly_eval cs 0 mod q"
    by (rule lagrange_zero [OF q inj pdeg_poly_eval m c y])
  have "(\<Sum>i<?l. ?c i * (lag_num sub i mod q * ?y i)) mod q
        = (\<Sum>i<?l. ?y i * ?c i * (\<Prod>j\<in>{..<?l} - {i}. ?x j)) mod q"
  proof (rule sum_mod_cong)
    fix i
    have "(?c i * (lag_num sub i mod q * ?y i)) mod q = (?c i * (lag_num sub i * ?y i)) mod q"
      by (metis mod_mult_left_eq mod_mult_right_eq)
    also have "?c i * (lag_num sub i * ?y i) = ?y i * ?c i * (\<Prod>j\<in>{..<?l} - {i}. ?x j)"
      by (simp add: lag_num_def mult.commute mult.left_commute)
    finally show "(?c i * (lag_num sub i mod q * ?y i)) mod q
        = (?y i * ?c i * (\<Prod>j\<in>{..<?l} - {i}. ?x j)) mod q" .
  qed
  with lag show ?thesis
    by (simp add: reconstruct_eq [OF q1])
qed

text \<open>
  C1. For every prime \<open>q\<close>, every secret \<open>s\<close> in \<open>[0, q)\<close>, every threshold \<open>f \<ge> 1\<close> and every
  number of parties \<open>n\<close> with \<open>f + 1 \<le> n < q\<close>, \<open>share(s, f, n, q)\<close> returns, whatever it
  draws, a list of exactly \<open>n\<close> pairwise distinct shares, with the x-coordinates \<open>1..n\<close>, and
  \<open>reconstruct\<close> returns \<open>s\<close> on every selection of \<open>f + 1\<close> distinct shares of that list, in
  any order. (There are such selections: the list has \<open>n \<ge> f + 1\<close> distinct elements, and
  its first \<open>f + 1\<close> shares are one.)
\<close>

theorem shamir_round_trip:
  assumes q: "is_prime q" and s: "0 \<le> s" "s < q"
    and f: "1 \<le> f" and n: "f + 1 \<le> n" "n < q"
  shows "\<exists>shares. share s f n q rnd = Inr shares
           \<and> length shares = nat n \<and> map fst shares = [1..n] \<and> distinct shares
           \<and> reconstruct (take (nat (f + 1)) shares) q = Inr s
           \<and> (\<forall>sub. distinct sub \<and> set sub \<subseteq> set shares \<and> int (length sub) = f + 1
                  \<longrightarrow> reconstruct sub q = Inr s)"
proof -
  define cs where "cs = s # map (\<lambda>i. rnd (nat i)) [0..f - 1]"
  define g where "g i = poly_eval cs i mod q" for i
  define shares where "shares = map (\<lambda>i. (i, g i)) [1..n]"
  have q0: "0 < q" using is_prime_pos [OF q] by simp
  have sh: "share s f n q rnd = Inr shares"
    unfolding shares_def g_def cs_def using f n(2) by (intro share_eq [OF q0]) simp_all
  have len: "length shares = nat n"
    by (simp add: shares_def)
  have idx: "map fst shares = [1..n]"
    by (simp add: shares_def comp_def)
  have "distinct (map fst shares)"
    by (simp only: idx distinct_upto)
  then have dsh: "distinct shares"
    by (simp add: distinct_map)
  have mem: "\<exists>a. 0 < a \<and> a < q \<and> u = (a, g a)" if "u \<in> set shares" for u
  proof -
    from that obtain a where "a \<in> set [1..n]" "u = (a, g a)"
      unfolding shares_def by auto
    then show ?thesis using n(2) by auto
  qed
  have rec: "reconstruct sub q = Inr s"
    if sub: "distinct sub" "set sub \<subseteq> set shares" "int (length sub) = f + 1" for sub
  proof -
    have el: "0 < fst (sub ! i) \<and> fst (sub ! i) < q \<and> snd (sub ! i) = g (fst (sub ! i))"
      if "i < length sub" for i
    proof -
      have "sub ! i \<in> set shares" using that sub(2) by (auto dest: nth_mem)
      from mem [OF this] show ?thesis by auto
    qed
    have "inj_on fst (set sub)"
    proof (rule inj_onI)
      fix u v assume u: "u \<in> set sub" and v: "v \<in> set sub" and eq: "fst u = fst v"
      from u v sub(2) have "u \<in> set shares" "v \<in> set shares" by auto
      from mem [OF this(1)] mem [OF this(2)] obtain a b where "u = (a, g a)" "v = (b, g b)"
        by auto
      with eq show "u = v" by simp
    qed
    with sub(1) have dist: "distinct (map fst sub)"
      by (simp add: distinct_map)
    have len: "length cs \<le> length sub"
      using sub(3) f by (simp add: cs_def)
    have "reconstruct sub q = Inr (poly_eval cs 0 mod q)"
    proof (rule reconstruct_poly [OF q _ dist _ len])
      show "0 < fst (sub ! i) \<and> fst (sub ! i) < q" if "i < length sub" for i
        using el [OF that] by simp
      show "snd (sub ! i) = poly_eval cs (fst (sub ! i)) mod q" if "i < length sub" for i
        using el [OF that] by (simp add: g_def)
      show "cs \<noteq> []" by (simp add: cs_def)
    qed
    then show ?thesis using s by (simp add: cs_def)
  qed
  have first: "reconstruct (take (nat (f + 1)) shares) q = Inr s"
  proof (rule rec)
    show "distinct (take (nat (f + 1)) shares)"
      using dsh by (rule distinct_take)
    show "set (take (nat (f + 1)) shares) \<subseteq> set shares"
      by (rule set_take_subset)
    show "int (length (take (nat (f + 1)) shares)) = f + 1"
      using len f n(1) by simp
  qed
  from sh len idx dsh first rec show ?thesis by blast
qed

lemma example_share: "share 3 1 3 5 example_draws = Inr [(1, 0), (2, 2), (3, 4)]"
  by code_simp

theorem shamir_round_trip_witness:
  "is_prime 5 \<and> (0::int) \<le> 3 \<and> (3::int) < 5 \<and> (1::int) \<le> 1 \<and> (1::int) + 1 \<le> 3 \<and> (3::int) < 5
   \<and> share 3 1 3 5 example_draws = Inr [(1, 0), (2, 2), (3, 4)]
   \<and> length [(1, 0), (2, 2), (3, 4 :: int)] = nat 3
   \<and> map fst [(1, 0), (2, 2), (3, 4 :: int)] = [1..3]
   \<and> reconstruct [(1, 0), (2, 2)] 5 = Inr 3
   \<and> reconstruct [(2, 2), (1, 0)] 5 = Inr 3
   \<and> reconstruct [(1, 0), (3, 4)] 5 = Inr 3
   \<and> reconstruct [(3, 4), (2, 2)] 5 = Inr 3"
proof -
  have h: "(0::int) \<le> 3" "(3::int) < 5" "(1::int) \<le> 1" "(1::int) + 1 \<le> 3" "(3::int) < 5"
    by simp_all
  from shamir_round_trip [OF is_prime_5 h, of example_draws]
  have shape: "length [(1, 0), (2, 2), (3, 4 :: int)] = nat 3"
      "map fst [(1, 0), (2, 2), (3, 4 :: int)] = [1..3]"
    and all: "\<forall>sub. distinct sub \<and> set sub \<subseteq> set [(1, 0), (2, 2), (3, 4)]
                  \<and> int (length sub) = 1 + 1 \<longrightarrow> reconstruct sub 5 = Inr 3"
    by (simp_all add: example_share)
  have "reconstruct [(1, 0), (2, 2)] 5 = Inr 3"
    using all [rule_format, of "[(1, 0), (2, 2)]"] by simp
  moreover have "reconstruct [(2, 2), (1, 0)] 5 = Inr 3"
    using all [rule_format, of "[(2, 2), (1, 0)]"] by simp
  moreover have "reconstruct [(1, 0), (3, 4)] 5 = Inr 3"
    using all [rule_format, of "[(1, 0), (3, 4)]"] by simp
  moreover have "reconstruct [(3, 4), (2, 2)] 5 = Inr 3"
    using all [rule_format, of "[(3, 4), (2, 2)]"] by simp
  ultimately show ?thesis
    using is_prime_5 example_share shape by simp
qed

section \<open>Threshold ElGamal, reference solution: the round trip on distinct nonzero points\<close>

text \<open>
  When the evaluation points \<open>share\<close> draws are nonzero and pairwise distinct modulo \<open>q\<close>,
  the reference solution decrypts correctly from every selection of \<open>f + 1\<close> shares: the
  failure shown above needs two equal points, or a point that is 0.
\<close>

lemma pdeg_monomial: "pdeg k (\<lambda>t. t ^ k)"
proof (induction k)
  case 0
  show ?case by (simp add: pdeg_const)
next
  case (Suc k)
  have "pdeg (Suc k) (\<lambda>t. (t - 0) * t ^ k)"
    by (intro pdeg_lin Suc.IH)
  then show ?case by simp
qed

text \<open>The polynomial of the reference solution: the coefficient \<open>i\<close> multiplies \<open>t ^ (f - i)\<close>.\<close>

lemma pdeg_descending:
  "pdeg (length cfs - 1) (\<lambda>t. \<Sum>i<length cfs. cfs ! i * t ^ (length cfs - 1 - i))"
proof (rule pdeg_sum)
  show "finite {..<length cfs}" by simp
next
  fix i assume "i \<in> {..<length cfs}"
  have "pdeg (length cfs - 1 - i) (\<lambda>t. t ^ (length cfs - 1 - i))"
    by (rule pdeg_monomial)
  then have "pdeg (length cfs - 1) (\<lambda>t. t ^ (length cfs - 1 - i))"
    by (rule pdeg_mono [rotated]) simp
  then show "pdeg (length cfs - 1) (\<lambda>t. cfs ! i * t ^ (length cfs - 1 - i))"
    by (rule pdeg_scale)
qed

lemma descending_zero:
  assumes "cfs \<noteq> []"
  shows "(\<Sum>i<length cfs. cfs ! i * (0::int) ^ (length cfs - 1 - i)) = last cfs"
proof -
  let ?l = "length cfs"
  have l: "0 < ?l" using assms by simp
  have "(\<Sum>i<?l. cfs ! i * (0::int) ^ (?l - 1 - i))
        = cfs ! (?l - 1) * 0 ^ (?l - 1 - (?l - 1))
          + (\<Sum>i\<in>{..<?l} - {?l - 1}. cfs ! i * 0 ^ (?l - 1 - i))"
    using l by (intro sum.remove) simp_all
  also have "(\<Sum>i\<in>{..<?l} - {?l - 1}. cfs ! i * (0::int) ^ (?l - 1 - i)) = 0"
  proof (rule sum.neutral, rule ballI)
    fix i assume "i \<in> {..<?l} - {?l - 1}"
    then have "0 < ?l - 1 - i" by auto
    then show "cfs ! i * (0::int) ^ (?l - 1 - i) = 0" by simp
  qed
  finally have "(\<Sum>i<?l. cfs ! i * (0::int) ^ (?l - 1 - i)) = cfs ! (?l - 1)"
    by simp
  also have "cfs ! (?l - 1) = last cfs"
    using assms by (rule last_conv_nth [symmetric])
  finally show ?thesis .
qed

lemma mod_add_mult_mod: "(a + c * (b mod q)) mod q = (a + c * b) mod (q::int)"
  by (metis mod_add_right_eq mod_mult_right_eq)

lemma sol10_polynomial_loop:
  assumes q: "0 < q" and v: "val mod q \<noteq> 0" and k: "k \<le> length cfs"
  shows "fold_err (\<lambda>(i, coeff) total.
           bind_err (power val (f - int i) q) (\<lambda>pw. py_mod (total + coeff * pw) q))
         (zip [0..<k] (take k cfs)) 0
         = Inr ((\<Sum>i<k. cfs ! i * val ^ nat (f - int i)) mod q)"
  using k
proof (induction k)
  case 0
  show ?case by simp
next
  case (Suc k)
  have kl: "k < length cfs" using Suc.prems by simp
  have z: "zip [0..<Suc k] (take (Suc k) cfs) = zip [0..<k] (take k cfs) @ [(k, cfs ! k)]"
    using kl by (simp add: take_Suc_conv_app_nth)
  have pw: "power val (f - int k) q = Inr (val ^ nat (f - int k) mod q)"
    using q v by (simp add: power_eq)
  have q0: "q \<noteq> 0" using q by simp
  let ?A = "\<Sum>i<k. cfs ! i * val ^ nat (f - int i)"
  have "(?A mod q + cfs ! k * (val ^ nat (f - int k) mod q)) mod q
        = (?A + cfs ! k * (val ^ nat (f - int k) mod q)) mod q"
    by (simp add: mod_add_left_eq)
  also have "\<dots> = (?A + cfs ! k * val ^ nat (f - int k)) mod q"
    by (rule mod_add_mult_mod)
  finally have step: "(?A mod q + cfs ! k * (val ^ nat (f - int k) mod q)) mod q
        = (?A + cfs ! k * val ^ nat (f - int k)) mod q" .
  show ?case
    using Suc.IH kl unfolding z
    by (simp add: fold_err_append pw py_mod_nonzero [OF q0] step)
qed

lemma sol10_polynomial_eq:
  assumes q: "0 < q" and v: "val mod q \<noteq> 0" and f: "int (length cfs) = f + 1"
  shows "sol10_polynomial val cfs f q
         = Inr ((\<Sum>i<length cfs. cfs ! i * val ^ (length cfs - 1 - i)) mod q)"
proof -
  have "nat (f - int i) = length cfs - 1 - i" for i
    using f by simp
  then show ?thesis
    using sol10_polynomial_loop [OF q v order_refl, where cfs = cfs and f = f]
    by (simp add: sol10_polynomial_def)
qed

lemma fold_err_snoc_map:
  assumes "\<And>x acc. x \<in> set xs \<Longrightarrow> step x acc = Inr (acc @ [G x])"
  shows "fold_err step xs acc0 = Inr (acc0 @ map G xs)"
  using assms by (induction xs arbitrary: acc0) simp_all

lemma sol10_share_eq:
  assumes q: "0 < q" and f: "0 \<le> f"
    and pts: "\<And>i. i \<in> set [0..n - 1] \<Longrightarrow> rnd (nat f + nat i) mod q \<noteq> 0"
    and cfs: "cfs = map (\<lambda>i. rnd (nat (i - 1))) [1..f] @ [x]"
  shows "sol10_share x f n q rnd
         = Inr (map (\<lambda>i. (rnd (nat f + nat i),
                   (\<Sum>k<length cfs. cfs ! k * rnd (nat f + nat i) ^ (length cfs - 1 - k)) mod q))
                 [0..n - 1])"
proof -
  have len: "int (length cfs) = f + 1" using f by (simp add: cfs)
  let ?G = "\<lambda>i. (rnd (nat f + nat i),
                   (\<Sum>k<length cfs. cfs ! k * rnd (nat f + nat i) ^ (length cfs - 1 - k)) mod q)"
  have "fold_err (\<lambda>i shares.
           bind_err (randint 0 (q - 1) (rnd (nat f + nat i))) (\<lambda>val.
           bind_err (sol10_polynomial val cfs f q) (\<lambda>share.
           Inr (shares @ [(val, share)]))))
         [0..n - 1] [] = Inr ([] @ map ?G [0..n - 1])"
  proof (rule fold_err_snoc_map)
    fix i :: int and acc :: "(int \<times> int) list"
    assume i: "i \<in> set [0..n - 1]"
    show "bind_err (randint 0 (q - 1) (rnd (nat f + nat i))) (\<lambda>val.
           bind_err (sol10_polynomial val cfs f q) (\<lambda>share.
           Inr (acc @ [(val, share)]))) = Inr (acc @ [?G i])"
      using q by (simp add: sol10_polynomial_eq [OF q pts [OF i] len])
  qed
  then show ?thesis
    using q by (simp add: sol10_share_def sol10_generateCoefficients_eq cfs [symmetric])
qed

lemma modInverse_any:
  assumes q: "0 < q"
  shows "modInverse d q = Inr (fermat_inv (d mod q) q)"
proof -
  let ?d = "if d < 0 then q + d else d"
  have m: "?d mod q = d mod q" by simp
  have "modInverse d q = Inr (if ?d mod q = 0 then 0 else ?d ^ nat (q - 2) mod q)"
    using q by (simp add: modInverse_def power_eq)
  also have "?d ^ nat (q - 2) mod q = (?d mod q) ^ nat (q - 2) mod q"
    by (rule power_mod [symmetric])
  finally show ?thesis
    by (simp only: m fermat_inv_def mod_mod_trivial)
qed

lemma recover_exp_eq:
  assumes q: "1 < q" and i: "x_i = fst (D ! i)"
  shows "recover_exp q D i x_i
         = Inr ((\<Prod>j\<in>{..<length D} - {i}.
                    (fst (D ! j) mod q) * fermat_inv ((fst (D ! j) - fst (D ! i)) mod q) q) mod q)"
proof -
  define step :: "nat \<times> int \<times> int \<Rightarrow> int \<Rightarrow> py_error + int"
    where "step = (\<lambda>(j, (x_j, d_j)) exp.
         if i \<noteq> j then
           bind_err (py_mod x_j q) (\<lambda>xq.
           bind_err (modInverse (x_j - x_i) q) (\<lambda>inv.
           py_mod (exp * xq * inv) q))
         else Inr exp)"
  define t where "t j = (fst (D ! j) mod q) * fermat_inv ((fst (D ! j) - fst (D ! i)) mod q) q" for j
  have q0: "0 < q" "q \<noteq> 0" using q by simp_all
  have step_same: "step (i, xd) e = Inr e" for xd e
    by (simp add: step_def split: prod.splits)
  have step_other: "step (j, D ! j) e = Inr ((e * t j) mod q)" if "j \<noteq> i" for j e
  proof -
    obtain xj dj where dj: "D ! j = (xj, dj)" by (cases "D ! j")
    have "(e * (xj mod q) * fermat_inv ((xj - x_i) mod q) q) mod q = (e * t j) mod q"
      by (simp add: t_def dj i mult.assoc)
    then show ?thesis
      using that
      by (simp add: step_def dj py_mod_nonzero [OF q0(2)] modInverse_any [OF q0(1)])
  qed
  have "fold_err step (zip [0..<k] (take k D)) 1 = Inr ((\<Prod>j\<in>{..<k} - {i}. t j) mod q)"
    if "k \<le> length D" for k
    using that
  proof (induction k)
    case 0
    show ?case using q by simp
  next
    case (Suc k)
    have kl: "k < length D" using Suc.prems by simp
    have z: "zip [0..<Suc k] (take (Suc k) D) = zip [0..<k] (take k D) @ [(k, D ! k)]"
      using kl by (simp add: take_Suc_conv_app_nth)
    have IH: "fold_err step (zip [0..<k] (take k D)) 1 = Inr ((\<Prod>j\<in>{..<k} - {i}. t j) mod q)"
      using Suc.IH kl by simp
    show ?case
    proof (cases "k = i")
      case True
      have "{..<Suc k} - {i} = {..<k} - {i}" using True by auto
      moreover have "step (k, D ! k) e = Inr e" for e
        using step_same [of "D ! k" e] True by simp
      ultimately show ?thesis
        unfolding z by (simp add: fold_err_append IH)
    next
      case False
      then have set: "{..<Suc k} - {i} = insert k ({..<k} - {i})" by auto
      have fin: "finite ({..<k} - {i})" "k \<notin> {..<k} - {i}" by simp_all
      have "((\<Prod>j\<in>{..<k} - {i}. t j) mod q * t k) mod q
            = (t k * (\<Prod>j\<in>{..<k} - {i}. t j)) mod q"
        by (metis mod_mult_left_eq mult.commute)
      then show ?thesis
        unfolding z set
        by (simp add: fold_err_append IH step_other [OF False] prod.insert [OF fin])
    qed
  qed
  from this [of "length D"] show ?thesis
    by (simp add: recover_exp_def step_def t_def)
qed

lemma recover_eq:
  assumes q: "1 < q" and p: "1 < p"
    and nz: "\<And>i. i < length D \<Longrightarrow> snd (D ! i) mod p \<noteq> 0"
  shows "recover p q g D (R, C)
         = Inr ((C * fermat_inv ((\<Prod>i<length D. snd (D ! i) ^ nat (lagrange_exp q D i)) mod p) p) mod p)"
proof -
  define step :: "nat \<times> int \<times> int \<Rightarrow> int \<Rightarrow> py_error + int"
    where "step = (\<lambda>(i, (x_i, d_i)) prod.
               bind_err (recover_exp q D i x_i) (\<lambda>exp.
               bind_err (power d_i exp p) (\<lambda>pw.
               py_mod (prod * pw) p)))"
  define t where "t i = snd (D ! i) ^ nat (lagrange_exp q D i)" for i
  have p0: "0 < p" "p \<noteq> 0" using p by simp_all
  have step_eq: "step (i, D ! i) e = Inr ((e * t i) mod p)" if i: "i < length D" for i e
  proof -
    obtain xi di where di: "D ! i = (xi, di)" by (cases "D ! i")
    have re: "recover_exp q D i xi = Inr (lagrange_exp q D i)"
      using recover_exp_eq [OF q, of xi D i] by (simp add: di lagrange_exp_def)
    have "di mod p \<noteq> 0" using nz [OF i] by (simp add: di)
    then have pw: "power di (lagrange_exp q D i) p = Inr (di ^ nat (lagrange_exp q D i) mod p)"
      using p0(1) by (simp add: power_eq)
    have "(e * (di ^ nat (lagrange_exp q D i) mod p)) mod p = (e * t i) mod p"
      by (simp add: t_def di mod_mult_right_eq)
    then show ?thesis
      by (simp add: step_def di re pw py_mod_nonzero [OF p0(2)])
  qed
  have "fold_err step (zip [0..<k] (take k D)) 1 = Inr ((\<Prod>i<k. t i) mod p)"
    if "k \<le> length D" for k
    using that
  proof (induction k)
    case 0
    show ?case using p by simp
  next
    case (Suc k)
    have kl: "k < length D" using Suc.prems by simp
    have z: "zip [0..<Suc k] (take (Suc k) D) = zip [0..<k] (take k D) @ [(k, D ! k)]"
      using kl by (simp add: take_Suc_conv_app_nth)
    have IH: "fold_err step (zip [0..<k] (take k D)) 1 = Inr ((\<Prod>i<k. t i) mod p)"
      using Suc.IH kl by simp
    have "((\<Prod>i<k. t i) mod p * t k) mod p = ((\<Prod>i<k. t i) * t k) mod p"
      by (rule mod_mult_left_eq)
    then show ?case
      unfolding z by (simp add: fold_err_append IH step_eq [OF kl])
  qed
  from this [of "length D"]
  have "fold_err step (zip [0..<length D] D) 1 = Inr ((\<Prod>i<length D. t i) mod p)"
    by simp
  moreover have "recover p q g D (R, C)
      = bind_err (fold_err step (zip [0..<length D] D) 1)
          (\<lambda>prod. bind_err (modInverse prod p) (\<lambda>inv. py_mod (C * inv) p))"
    by (simp only: recover_def step_def prod.case)
  ultimately show ?thesis
    by (simp add: modInverse_any [OF p0(1)] py_mod_nonzero [OF p0(2)] t_def)
qed

lemma decrypt_each_eq:
  assumes p: "0 < p" and R: "R mod p \<noteq> 0"
  shows "decrypt_each p q g pk s (R, C) = Inr (map (\<lambda>sk. (fst sk, R ^ nat (snd sk) mod p)) s)"
proof -
  have "fold_err (\<lambda>s_i D. bind_err (decrypt p g q pk s_i (R, C)) (\<lambda>d. Inr (D @ [d]))) s []
        = Inr ([] @ map (\<lambda>sk. (fst sk, R ^ nat (snd sk) mod p)) s)"
  proof (rule fold_err_snoc_map)
    fix sk :: "int \<times> int" and acc :: "(int \<times> int) list"
    show "bind_err (decrypt p g q pk sk (R, C)) (\<lambda>d. Inr (acc @ [d]))
          = Inr (acc @ [(fst sk, R ^ nat (snd sk) mod p)])"
      using p R by (cases sk) (simp add: decrypt_def power_eq)
  qed
  then show ?thesis by (simp add: decrypt_each_def)
qed

lemma is_prime_dvd_power:
  assumes p: "is_prime p" and d: "p dvd a ^ n"
  shows "p dvd a"
  using d
proof (induction n)
  case 0
  then have "p dvd 1" by simp
  with is_prime_pos [OF p] show ?case by simp
next
  case (Suc n)
  then have "p dvd a * a ^ n" by simp
  with is_prime_dvd_mult [OF p] Suc.IH show ?case by blast
qed

lemma prod_mod_one:
  assumes "finite A" and "\<And>j. j \<in> A \<Longrightarrow> f j mod q = (1::int)"
  shows "(\<Prod>j\<in>A. f j) mod q = 1 mod q"
proof -
  have "(\<Prod>j\<in>A. f j) mod q = (\<Prod>j\<in>A. f j mod q) mod q"
    by (rule mod_prod_eq [symmetric])
  also have "(\<Prod>j\<in>A. f j mod q) = (\<Prod>j\<in>A. 1)"
    using assms(2) by (intro prod.cong) simp_all
  finally show ?thesis by simp
qed

text \<open>The exponents of \<open>recover\<close> are Lagrange coefficients at 0 modulo \<open>q\<close>.\<close>

lemma lagrange_exp_sum:
  assumes q: "is_prime q"
    and inj: "inj_on (\<lambda>i. fst (D ! i) mod q) {..<length D}"
    and P: "pdeg m P" and m: "m < length D"
    and y: "\<And>i. i < length D \<Longrightarrow> y i mod q = P (fst (D ! i)) mod q"
  shows "(\<Sum>i<length D. y i * lagrange_exp q D i) mod q = P 0 mod q"
proof -
  let ?l = "length D"
  define x where "x i = fst (D ! i)" for i
  define c where "c i = (\<Prod>j\<in>{..<?l} - {i}. fermat_inv ((x j - x i) mod q) q)" for i
  have q1: "1 < q" using q by (rule is_prime_pos)
  have injx: "inj_on (\<lambda>i. x i mod q) {..<?l}"
    using inj by (simp add: x_def [abs_def])
  have c1: "(c i * (\<Prod>j\<in>{..<?l} - {i}. (x j - x i))) mod q = 1" if i: "i < ?l" for i
  proof -
    have "c i * (\<Prod>j\<in>{..<?l} - {i}. (x j - x i))
          = (\<Prod>j\<in>{..<?l} - {i}. fermat_inv ((x j - x i) mod q) q * (x j - x i))"
      by (simp add: c_def prod.distrib)
    moreover have "(\<Prod>j\<in>{..<?l} - {i}. fermat_inv ((x j - x i) mod q) q * (x j - x i)) mod q
          = 1 mod q"
    proof (rule prod_mod_one)
      show "finite ({..<?l} - {i})" by simp
    next
      fix j assume j: "j \<in> {..<?l} - {i}"
      have "\<not> q dvd x j - x i"
      proof
        assume "q dvd x j - x i"
        then have "x j mod q = x i mod q" using mod_eq_dvd_iff by blast
        with injx i j show False by (auto dest: inj_onD)
      qed
      then show "(fermat_inv ((x j - x i) mod q) q * (x j - x i)) mod q = 1"
        by (rule fermat_inv_mult [OF q])
    qed
    ultimately show ?thesis using q1 by simp
  qed
  have e: "lagrange_exp q D i mod q = (c i * (\<Prod>j\<in>{..<?l} - {i}. x j)) mod q" for i
  proof -
    have "lagrange_exp q D i mod q
          = ((\<Prod>j\<in>{..<?l} - {i}. (x j mod q)) * c i) mod q"
      by (simp add: lagrange_exp_def x_def [symmetric] c_def prod.distrib)
    also have "\<dots> = (((\<Prod>j\<in>{..<?l} - {i}. (x j mod q)) mod q) * c i) mod q"
      by (simp add: mod_mult_left_eq)
    also have "((\<Prod>j\<in>{..<?l} - {i}. (x j mod q)) mod q) = (\<Prod>j\<in>{..<?l} - {i}. x j) mod q"
      by (rule mod_prod_eq)
    finally have "lagrange_exp q D i mod q = ((\<Prod>j\<in>{..<?l} - {i}. x j) mod q * c i) mod q" .
    also have "\<dots> = ((\<Prod>j\<in>{..<?l} - {i}. x j) * c i) mod q"
      by (rule mod_mult_left_eq)
    finally show ?thesis by (simp only: mult.commute)
  qed
  have "(\<Sum>i<?l. y i * lagrange_exp q D i) mod q
        = (\<Sum>i<?l. y i * c i * (\<Prod>j\<in>{..<?l} - {i}. x j)) mod q"
  proof (rule sum_mod_cong)
    fix i
    have "(y i * lagrange_exp q D i) mod q = (y i * (lagrange_exp q D i mod q)) mod q"
      by (simp add: mod_mult_right_eq)
    also have "\<dots> = (y i * ((c i * (\<Prod>j\<in>{..<?l} - {i}. x j)) mod q)) mod q"
      by (simp only: e)
    also have "\<dots> = (y i * (c i * (\<Prod>j\<in>{..<?l} - {i}. x j))) mod q"
      by (simp add: mod_mult_right_eq)
    finally show "(y i * lagrange_exp q D i) mod q
        = (y i * c i * (\<Prod>j\<in>{..<?l} - {i}. x j)) mod q"
      by (simp add: mult.assoc)
  qed
  also have "\<dots> = P 0 mod q"
  proof (rule lagrange_zero [OF q injx P m])
    show "(c i * (\<Prod>j\<in>{..<?l} - {i}. (x j - x i))) mod q = 1" if "i < ?l" for i
      by (rule c1 [OF that])
    show "y i mod q = P (x i) mod q" if "i < ?l" for i
      using y [OF that] by (simp add: x_def)
  qed
  finally show ?thesis .
qed

lemma power_order:
  assumes q: "0 < q" and R: "R ^ nat q mod p = (1::int)" and E: "0 \<le> E"
  shows "R ^ nat E mod p = R ^ nat (E mod q) mod p"
proof -
  have k: "0 \<le> E div q" using E q by (simp add: pos_imp_zdiv_nonneg_iff)
  have "E = E mod q + q * (E div q)" by simp
  then have "nat E = nat (E mod q) + nat q * nat (E div q)"
    using q k by (metis nat_add_distrib nat_mult_distrib pos_mod_sign less_imp_le mult_nonneg_nonneg)
  then have "R ^ nat E = R ^ nat (E mod q) * (R ^ nat q) ^ nat (E div q)"
    by (simp add: power_add power_mult)
  then have "R ^ nat E mod p = (R ^ nat (E mod q) * ((R ^ nat q mod p) ^ nat (E div q) mod p)) mod p"
    by (simp add: mod_mult_right_eq power_mod)
  also have "\<dots> = R ^ nat (E mod q) mod p"
    by (simp add: R mod_mult_right_eq)
  finally show ?thesis .
qed

lemma prod_mod_cong:
  assumes "\<And>i. i \<in> A \<Longrightarrow> f i mod q = g i mod (q::int)"
  shows "(\<Prod>i\<in>A. f i) mod q = (\<Prod>i\<in>A. g i) mod q"
proof -
  have "(\<Prod>i\<in>A. f i) mod q = (\<Prod>i\<in>A. f i mod q) mod q"
    by (rule mod_prod_eq [symmetric])
  also have "(\<Prod>i\<in>A. f i mod q) = (\<Prod>i\<in>A. g i mod q)"
    using assms by (rule prod.cong [OF refl])
  also have "(\<Prod>i\<in>A. g i mod q) mod q = (\<Prod>i\<in>A. g i) mod q"
    by (rule mod_prod_eq)
  finally show ?thesis .
qed

lemma not_dvd_power_mod:
  assumes p: "is_prime p" and a: "\<not> p dvd a"
  shows "\<not> p dvd a ^ n mod p"
proof
  assume "p dvd a ^ n mod p"
  then have "p dvd a ^ n" by (simp add: dvd_mod_iff)
  with is_prime_dvd_power [OF p] a show False by blast
qed

text \<open>
  The product \<open>recover\<close> builds from partial decryptions \<open>R ^ sk_i\<close> whose shares \<open>sk_i\<close> lie
  on a polynomial is \<open>R\<close> to the polynomial's value at 0, when \<open>R\<close> has an order dividing \<open>q\<close>.
\<close>

lemma recover_product:
  assumes q: "is_prime q" and Rq: "R ^ nat q mod p = 1"
    and inj: "inj_on (\<lambda>i. fst (sub ! i) mod q) {..<length sub}"
    and P: "pdeg m P" and m: "m < length sub"
    and y: "\<And>i. i < length sub \<Longrightarrow> snd (sub ! i) = P (fst (sub ! i)) mod q"
    and D: "D = map (\<lambda>sk. (fst sk, R ^ nat (snd sk) mod p)) sub"
  shows "(\<Prod>i<length D. snd (D ! i) ^ nat (lagrange_exp q D i)) mod p
         = R ^ nat (P 0 mod q) mod p"
proof -
  let ?l = "length sub"
  have q0: "0 < q" using is_prime_pos [OF q] by simp
  have len: "length D = ?l" by (simp add: D)
  have fstD: "fst (D ! i) = fst (sub ! i)" if "i < ?l" for i
    using that by (simp add: D)
  have sndD: "snd (D ! i) = R ^ nat (snd (sub ! i)) mod p" if "i < ?l" for i
    using that by (simp add: D)
  define e where "e i = lagrange_exp q D i" for i
  define E where "E = (\<Sum>i<?l. snd (sub ! i) * e i)"
  have e0: "0 \<le> e i" for i
    using q0 by (simp add: e_def lagrange_exp_def)
  have sk0: "0 \<le> snd (sub ! i)" if "i < ?l" for i
    using y [OF that] q0 by simp
  have E0: "0 \<le> E"
    unfolding E_def using e0 sk0 by (intro sum_nonneg) simp
  have injD: "inj_on (\<lambda>i. fst (D ! i) mod q) {..<length D}"
  proof (rule inj_onI)
    fix i j assume "i \<in> {..<length D}" "j \<in> {..<length D}"
      and "fst (D ! i) mod q = fst (D ! j) mod q"
    then have "i \<in> {..<?l}" "j \<in> {..<?l}" "fst (sub ! i) mod q = fst (sub ! j) mod q"
      using len fstD by simp_all
    with inj show "i = j" by (auto dest: inj_onD)
  qed
  have "(\<Sum>i<length D. snd (sub ! i) * lagrange_exp q D i) mod q = P 0 mod q"
  proof (rule lagrange_exp_sum [OF q injD P])
    show "m < length D" using m len by simp
    show "snd (sub ! i) mod q = P (fst (D ! i)) mod q" if "i < length D" for i
      using that len y [of i] fstD [of i] by simp
  qed
  then have Emod: "E mod q = P 0 mod q"
    by (simp add: E_def e_def len)
  have natE: "nat E = (\<Sum>i<?l. nat (snd (sub ! i)) * nat (e i))"
  proof -
    have "int (\<Sum>i<?l. nat (snd (sub ! i)) * nat (e i))
          = (\<Sum>i<?l. int (nat (snd (sub ! i)) * nat (e i)))"
      by (rule of_nat_sum)
    also have "\<dots> = (\<Sum>i<?l. snd (sub ! i) * e i)"
    proof (rule sum.cong [OF refl])
      fix i assume "i \<in> {..<?l}"
      then show "int (nat (snd (sub ! i)) * nat (e i)) = snd (sub ! i) * e i"
        using e0 [of i] sk0 [of i] by simp
    qed
    finally have "int (\<Sum>i<?l. nat (snd (sub ! i)) * nat (e i)) = E"
      by (simp only: E_def)
    then show ?thesis by (metis nat_int)
  qed
  have "(\<Prod>i<length D. snd (D ! i) ^ nat (lagrange_exp q D i)) mod p
        = (\<Prod>i<?l. (R ^ nat (snd (sub ! i))) ^ nat (e i)) mod p"
    unfolding len
  proof (rule prod_mod_cong)
    fix i assume "i \<in> {..<?l}"
    then have "snd (D ! i) = R ^ nat (snd (sub ! i)) mod p" using sndD by simp
    then show "snd (D ! i) ^ nat (lagrange_exp q D i) mod p
          = (R ^ nat (snd (sub ! i))) ^ nat (e i) mod p"
      by (simp add: e_def power_mod)
  qed
  also have "(\<Prod>i<?l. (R ^ nat (snd (sub ! i))) ^ nat (e i)) = R ^ nat E"
    by (simp add: natE power_sum power_mult)
  also have "R ^ nat E mod p = R ^ nat (E mod q) mod p"
    by (rule power_order [OF q0 Rq E0])
  finally show ?thesis by (simp only: Emod)
qed

lemma sol10_round_trip:
  assumes p: "is_prime p" and q: "is_prime q" and g: "g ^ nat q mod p = 1"
    and q3: "3 \<le> q"
    and s: "0 \<le> rk 0" "rk 0 < q"
    and f: "0 \<le> f"
    and pts: "\<And>i. i \<in> set [0..n - 1] \<Longrightarrow> rk (Suc (nat f + nat i)) mod q \<noteq> 0"
    and inj: "inj_on (\<lambda>i. rk (Suc (nat f + nat i)) mod q) (set [0..n - 1])"
    and m: "0 \<le> m" "m < p"
  shows "\<exists>pk shares R C.
           sol10_KeyGen p q g n f rk = Inr (pk, shares)
           \<and> encrypt p q g pk m re = Inr (R, C)
           \<and> (\<forall>sub. distinct sub \<and> set sub \<subseteq> set shares \<and> int (length sub) = f + 1 \<longrightarrow>
                 (\<exists>D. decrypt_each p q g pk sub (R, C) = Inr D
                      \<and> recover p q g D (R, C) = Inr m))"
proof -
  define s where "s = rk 0"
  define cfs where "cfs = map (\<lambda>i. rk (Suc (nat (i - 1)))) [1..f] @ [s]"
  define P where "P t = (\<Sum>k<length cfs. cfs ! k * t ^ (length cfs - 1 - k))" for t
  define pt where "pt i = rk (Suc (nat f + nat i))" for i :: int
  define shares where "shares = map (\<lambda>i. (pt i, P (pt i) mod q)) [0..n - 1]"
  define pk where "pk = g ^ nat s mod p"
  define R where "R = g ^ nat (re 0) mod p"
  define K where "K = pk ^ nat (re 0) mod p"
  define C where "C = (K * m) mod p"
  have p1: "1 < p" and q1: "1 < q" using p q by (simp_all add: is_prime_pos)
  have p0: "0 < p" "p \<noteq> 0" and q0: "0 < q" using p1 q1 by simp_all
  have gnd: "\<not> p dvd g"
  proof
    assume "p dvd g"
    moreover have "g dvd g ^ nat q" using q1 by (intro dvd_power) simp
    ultimately have "p dvd g ^ nat q" by (rule dvd_trans)
    then have "g ^ nat q mod p = 0" by simp
    with g show False by simp
  qed
  have pknd: "\<not> p dvd pk" unfolding pk_def by (rule not_dvd_power_mod [OF p gnd])
  have Rnd: "\<not> p dvd R" unfolding R_def by (rule not_dvd_power_mod [OF p gnd])
  have Knd: "\<not> p dvd K" unfolding K_def by (rule not_dvd_power_mod [OF p pknd])
  have gnz: "g mod p \<noteq> 0" "pk mod p \<noteq> 0" "R mod p \<noteq> 0"
    using gnd pknd Rnd by (simp_all add: dvd_eq_mod_eq_0)
  have Pdeg: "pdeg (length cfs - 1) P"
    unfolding P_def [abs_def] by (rule pdeg_descending)
  have P0: "P 0 = s"
    unfolding P_def using descending_zero [of cfs] by (simp add: cfs_def)
  have lcfs: "length cfs = Suc (nat f)" using f by (simp add: cfs_def)
  have share: "sol10_share s f n q (\<lambda>k. rk (Suc k)) = Inr shares"
    unfolding shares_def P_def pt_def
    by (rule sol10_share_eq [OF q0 f pts cfs_def])
  have keygen: "sol10_KeyGen p q g n f rk = Inr (pk, shares)"
    using q3 p0(1) gnz(1)
    by (simp add: sol10_KeyGen_def s_def [symmetric] share power_eq pk_def)
  have enc: "encrypt p q g pk m re = Inr (R, C)"
    using q3 p0 gnz(1,2)
    by (simp add: encrypt_def power_eq R_def K_def C_def)
  have Rq: "R ^ nat q mod p = 1"
  proof -
    have "R ^ nat q mod p = (g ^ nat (re 0)) ^ nat q mod p"
      by (simp add: R_def power_mod)
    also have "\<dots> = (g ^ nat q) ^ nat (re 0) mod p"
      by (simp add: power_mult [symmetric] mult.commute)
    also have "\<dots> = (g ^ nat q mod p) ^ nat (re 0) mod p"
      by (simp add: power_mod)
    also have "\<dots> = 1"
      using p1 by (simp add: g)
    finally show ?thesis .
  qed
  have RK: "R ^ nat s mod p = K"
  proof -
    have "R ^ nat s mod p = (g ^ nat (re 0)) ^ nat s mod p"
      by (simp add: R_def power_mod)
    also have "\<dots> = (g ^ nat s) ^ nat (re 0) mod p"
      by (simp add: power_mult [symmetric] mult.commute)
    also have "\<dots> = K"
      by (simp add: K_def pk_def power_mod)
    finally show ?thesis .
  qed
  have mem: "\<exists>a\<in>set [0..n - 1]. u = (pt a, P (pt a) mod q)" if "u \<in> set shares" for u
    using that unfolding shares_def by auto
  have "\<exists>D. decrypt_each p q g pk sub (R, C) = Inr D \<and> recover p q g D (R, C) = Inr m"
    if sub: "distinct sub" "set sub \<subseteq> set shares" "int (length sub) = f + 1" for sub
  proof -
    define D where "D = map (\<lambda>sk. (fst sk, R ^ nat (snd sk) mod p)) sub"
    have dec: "decrypt_each p q g pk sub (R, C) = Inr D"
      unfolding D_def by (rule decrypt_each_eq [OF p0(1) gnz(3)])
    have el: "\<exists>a\<in>set [0..n - 1]. sub ! i = (pt a, P (pt a) mod q)" if "i < length sub" for i
    proof -
      have "sub ! i \<in> set shares" using that sub(2) by (auto dest: nth_mem)
      then show ?thesis by (rule mem)
    qed
    have injs: "inj_on (\<lambda>i. fst (sub ! i) mod q) {..<length sub}"
    proof (rule inj_onI)
      fix i j assume i: "i \<in> {..<length sub}" and j: "j \<in> {..<length sub}"
        and eq: "fst (sub ! i) mod q = fst (sub ! j) mod q"
      from i have il: "i < length sub" by simp
      from j have jl: "j < length sub" by simp
      from el [OF il] obtain a where a: "a \<in> set [0..n - 1]" "sub ! i = (pt a, P (pt a) mod q)"
        by blast
      from el [OF jl] obtain b where b: "b \<in> set [0..n - 1]" "sub ! j = (pt b, P (pt b) mod q)"
        by blast
      from eq a(2) b(2) have "pt a mod q = pt b mod q" by simp
      with inj a(1) b(1) have "a = b" unfolding pt_def by (auto dest: inj_onD)
      with a(2) b(2) have "sub ! i = sub ! j" by simp
      with sub(1) i j show "i = j" by (simp add: nth_eq_iff_index_eq)
    qed
    have vals: "snd (sub ! i) = P (fst (sub ! i)) mod q" if "i < length sub" for i
      using el [OF that] by auto
    have deg: "length cfs - 1 < length sub"
      using sub(3) f lcfs by simp
    have prod: "(\<Prod>i<length D. snd (D ! i) ^ nat (lagrange_exp q D i)) mod p = K"
      using recover_product [OF q Rq injs Pdeg deg vals D_def] s
      by (simp add: P0 s_def [symmetric] RK)
    have nz: "snd (D ! i) mod p \<noteq> 0" if "i < length D" for i
    proof -
      have "\<not> p dvd R ^ nat (snd (sub ! i)) mod p"
        by (rule not_dvd_power_mod [OF p Rnd])
      then show ?thesis using that by (simp add: D_def dvd_eq_mod_eq_0)
    qed
    have "recover p q g D (R, C) = Inr ((C * fermat_inv K p) mod p)"
      using recover_eq [OF q1 p1 nz, of g R C] by (simp add: prod)
    also have "(C * fermat_inv K p) mod p = m"
    proof -
      have Kmod: "K mod p = K" by (simp add: K_def)
      have one: "(fermat_inv (K mod p) p * K) mod p = 1"
        by (rule fermat_inv_mult [OF p Knd])
      have "(C * fermat_inv K p) mod p = (K * m * fermat_inv K p) mod p"
        by (simp add: C_def mod_mult_left_eq)
      also have "\<dots> = (m * (fermat_inv K p * K)) mod p"
        by (simp add: ac_simps)
      also have "\<dots> = (m * ((fermat_inv K p * K) mod p)) mod p"
        by (rule mod_mult_right_eq [symmetric])
      also have "\<dots> = m mod p"
        using one by (simp add: Kmod)
      finally show ?thesis using m by simp
    qed
    finally show ?thesis using dec by blast
  qed
  with keygen enc show ?thesis by blast
qed

text \<open>
  The exponents of the reference solution are residues modulo \<open>q\<close>; the coefficients of the
  submitted script are residues modulo \<open>p\<close>.
\<close>

lemma recover_exp_reduced:
  assumes "1 < q" and "x_i = fst (D ! i)"
  shows "\<exists>e. recover_exp q D i x_i = Inr e \<and> 0 \<le> e \<and> e < q"
  using assms by (simp add: recover_exp_eq)

lemma Recover_lamb_reduced:
  assumes p: "1 < p"
  shows "\<exists>lamb. Recover_lamb S p i = Inr lamb \<and> 0 \<le> lamb \<and> lamb < p"
proof -
  have p0: "0 < p" "p \<noteq> 0" using p by simp_all
  have "0 \<le> lag_den S i mod p" using p0(1) by simp
  then have "modInverse (lag_den S i mod p) p = Inr (fermat_inv (lag_den S i mod p) p)"
    by (rule modInverse_nonneg [OF p0(1)])
  then show ?thesis
    using p0
    by (simp add: Recover_lamb_def lagrange_terms_eq [OF p] lag_num_def [symmetric]
        lag_den_def [symmetric])
qed

text \<open>
  The hypotheses of \<open>sol10_round_trip\<close> on \<open>p = 7\<close>, \<open>q = 3\<close>, \<open>g = 2\<close>, \<open>n = 2\<close>, \<open>f = 1\<close>, the
  message 3 and the draws \<open>s = 2\<close>, coefficient 1, evaluation points 1 and 2.
\<close>

lemma sol10_round_trip_example:
  "sol10_KeyGen 7 3 2 2 1 distinct_draws = Inr (4, [(1, 0), (2, 1)])
   \<and> encrypt 7 3 2 4 3 example_draws = Inr (4, 6)
   \<and> decrypt_each 7 3 2 4 [(2, 1), (1, 0)] (4, 6) = Inr [(2, 4), (1, 1)]
   \<and> recover 7 3 2 [(2, 4), (1, 1)] (4, 6) = Inr 3"
proof -
  have h: "(2::int) ^ nat 3 mod 7 = 1" "(3::int) \<le> 3" "0 \<le> distinct_draws 0"
    "distinct_draws 0 < 3" "(0::int) \<le> 1" "(0::int) \<le> 3" "(3::int) < 7"
    by (simp_all add: distinct_draws_def)
  have pts: "distinct_draws (Suc (nat 1 + nat i)) mod 3 \<noteq> 0" if "i \<in> set [0..2 - 1]" for i
  proof -
    from that have "i = 0 \<or> i = 1" by auto
    then show ?thesis by (auto simp: distinct_draws_def)
  qed
  have inj: "inj_on (\<lambda>i. distinct_draws (Suc (nat 1 + nat i)) mod 3) (set [0..2 - 1])"
  proof (rule inj_onI)
    fix i j :: int
    assume "i \<in> set [0..2 - 1]" "j \<in> set [0..2 - 1]"
      and eq: "distinct_draws (Suc (nat 1 + nat i)) mod 3 = distinct_draws (Suc (nat 1 + nat j)) mod 3"
    then have "i = 0 \<or> i = 1" "j = 0 \<or> j = 1" by auto
    with eq show "i = j" by (auto simp: distinct_draws_def)
  qed
  have kg: "sol10_KeyGen 7 3 2 2 1 distinct_draws = Inr (4, [(1, 0), (2, 1)])"
    and en: "encrypt 7 3 2 4 3 example_draws = Inr (4, 6)"
    and de: "decrypt_each 7 3 2 4 [(2, 1), (1, 0)] (4, 6) = Inr [(2, 4), (1, 1)]"
    by code_simp+
  from sol10_round_trip [OF is_prime_7 is_prime_3 h(1,2,3,4,5) pts inj h(6,7),
      where re = example_draws]
  have "\<forall>sub. distinct sub \<and> set sub \<subseteq> set [(1, 0), (2, 1)] \<and> int (length sub) = 1 + 1 \<longrightarrow>
          (\<exists>D. decrypt_each 7 3 2 4 sub (4, 6) = Inr D \<and> recover 7 3 2 D (4, 6) = Inr 3)"
    by (simp add: kg en)
  from this [rule_format, of "[(2, 1), (1, 0)]"]
  have "recover 7 3 2 [(2, 4), (1, 1)] (4, 6) = Inr 3"
    by (simp add: de)
  with kg en de show ?thesis by simp
qed

end
